theory Spec2Isabelle
  imports Main
begin

section \<open>Strings and character classes\<close>

text \<open>
  A TypeScript string is modelled as a \<open>string\<close>: a list of code units, here the code
  units below 256. The regular expressions of \<open>misc.ts\<close> carry no \<open>u\<close> flag, so they
  work on code units one at a time. The classes are those of ECMAScript restricted to this
  range: \<open>\s\<close> is TAB, LF, VT, FF, CR, SPACE and NBSP; \<open>\d\<close> is \<open>0\<close> to \<open>9\<close>; \<open>.\<close>
  is everything but LF and CR.
\<close>

definition isWhiteSpace :: "char \<Rightarrow> bool" where
  "isWhiteSpace x =
     (x \<in> set [CHR 0x09, CHR 0x0A, CHR 0x0B, CHR 0x0C, CHR 0x0D, CHR 0x20, CHR 0xA0])"

definition isDigit :: "char \<Rightarrow> bool" where
  "isDigit x = (x \<in> set ''0123456789'')"

datatype cls = Dot | Digit | Space | NotSpace | Not char

fun in_cls :: "cls \<Rightarrow> char \<Rightarrow> bool" where
  "in_cls Dot x = (x \<noteq> CHR 0x0A \<and> x \<noteq> CHR 0x0D)"
| "in_cls Digit x = isDigit x"
| "in_cls Space x = isWhiteSpace x"
| "in_cls NotSpace x = (\<not> isWhiteSpace x)"
| "in_cls (Not c) x = (x \<noteq> c)"

text \<open>
  \<open>String.prototype.split\<close> with a one-character separator. The result is never an
  empty array, so the second branch of the \<open>case\<close> is never taken.
\<close>

fun split :: "char \<Rightarrow> string \<Rightarrow> string list" where
  "split sep [] = [[]]"
| "split sep (x # xs) =
     (if x = sep then [] # split sep xs
      else (case split sep xs of y # ys \<Rightarrow> (x # y) # ys | [] \<Rightarrow> [[x]]))"

text \<open>\<open>Array.prototype.join\<close>.\<close>

fun join :: "string \<Rightarrow> string list \<Rightarrow> string" where
  "join sep [] = []"
| "join sep [x] = x"
| "join sep (x # y # ys) = x @ sep @ join sep (y # ys)"

text \<open>\<open>String.prototype.trim\<close>.\<close>

definition trim :: "string \<Rightarrow> string" where
  "trim s = rev (dropWhile isWhiteSpace (rev (dropWhile isWhiteSpace s)))"

section \<open>Regular expressions\<close>

text \<open>
  The fragment of ECMAScript patterns that \<open>phaseDescription\<close> uses: literal text, a
  one-character class, sequence, the greedy \<open>*\<close>, the lazy \<open>*?\<close>, the greedy \<open>?\<close> and a
  numbered capture group. \<open>r+\<close> is \<open>r\<close> followed by \<open>r*\<close>.
\<close>

datatype regex =
    Lit string
  | Class cls
  | Seq regex regex
  | Star regex
  | LazyStar regex
  | Opt regex
  | Group nat regex

definition Plus :: "regex \<Rightarrow> regex" where
  "Plus r = Seq r (Star r)"

fun seq :: "regex list \<Rightarrow> regex" where
  "seq [] = Lit []"
| "seq [r] = r"
| "seq (r # rs) = Seq r (seq rs)"

text \<open>A capture that did not take part in the match is \<open>undefined\<close>: \<open>None\<close>.\<close>

type_synonym caps = "nat \<rightharpoonup> string"

text \<open>
  The backtracking matcher of the language specification, in continuation style: \<open>m r s c k\<close>
  matches \<open>r\<close> at the front of \<open>s\<close> and hands the rest of the input and the captures to
  \<open>k\<close>; when \<open>k\<close> fails the next alternative of \<open>r\<close> is tried. An iteration of \<open>*\<close>
  that consumes nothing is rejected, as the specification's RepeatMatcher does.
\<close>

fun m :: "regex \<Rightarrow> string \<Rightarrow> caps \<Rightarrow> (string \<Rightarrow> caps \<Rightarrow> 'a option) \<Rightarrow> 'a option" where
  "m (Lit cs) s c k = (if take (length cs) s = cs then k (drop (length cs) s) c else None)"
| "m (Class X) s c k =
     (case s of [] \<Rightarrow> None | x # xs \<Rightarrow> if in_cls X x then k xs c else None)"
| "m (Seq r1 r2) s c k = m r1 s c (\<lambda>s' c'. m r2 s' c' k)"
| "m (Star r) s c k =
     (case m r s c (\<lambda>s' c'. if length s' < length s then m (Star r) s' c' k else None) of
        Some y \<Rightarrow> Some y
      | None \<Rightarrow> k s c)"
| "m (LazyStar r) s c k =
     (case k s c of
        Some y \<Rightarrow> Some y
      | None \<Rightarrow> m r s c (\<lambda>s' c'. if length s' < length s then m (LazyStar r) s' c' k else None))"
| "m (Opt r) s c k = (case m r s c k of Some y \<Rightarrow> Some y | None \<Rightarrow> k s c)"
| "m (Group n r) s c k = m r s c (\<lambda>s' c'. k s' (c'(n \<mapsto> take (length s - length s') s)))"

text \<open>The match array of \<open>exec\<close>: \<open>index\<close>, element 0 and the numbered elements.\<close>

record match =
  index :: nat
  matched :: string
  captures :: caps

text \<open>
  The search loop of RegExpBuiltinExec: try the pattern at position \<open>i\<close> (where the input
  still to read is \<open>s\<close>), then at the next position, up to and including the end.
\<close>

fun scan :: "regex \<Rightarrow> nat \<Rightarrow> string \<Rightarrow> match option" where
  "scan r i s =
     (case m r s Map.empty (\<lambda>s' c. Some (s', c)) of
        Some (s', c) \<Rightarrow>
          Some \<lparr>index = i, matched = take (length s - length s') s, captures = c\<rparr>
      | None \<Rightarrow> (case s of [] \<Rightarrow> None | x # xs \<Rightarrow> scan r (Suc i) xs))"

declare scan.simps [simp del]

text \<open>
  A RegExp object: its pattern, the \<open>g\<close> flag and the mutable \<open>lastIndex\<close>. \<open>exec\<close> reads
  and writes \<open>lastIndex\<close> only under the \<open>g\<close> flag; it returns the match (or \<open>null\<close>) and
  the object as it is afterwards.
\<close>

record regexp =
  source :: regex
  global :: bool
  lastIndex :: nat

definition literal :: "regex \<Rightarrow> bool \<Rightarrow> regexp" where
  "literal r g = \<lparr>source = r, global = g, lastIndex = 0\<rparr>"

definition exec :: "regexp \<Rightarrow> string \<Rightarrow> match option \<times> regexp" where
  "exec R S =
     (let li = (if global R then lastIndex R else 0) in
      if length S < li then (None, if global R then R\<lparr>lastIndex := 0\<rparr> else R)
      else
        (case scan (source R) li (drop li S) of
           None \<Rightarrow> (None, if global R then R\<lparr>lastIndex := 0\<rparr> else R)
         | Some mt \<Rightarrow>
             (Some mt,
              if global R then R\<lparr>lastIndex := index mt + length (matched mt)\<rparr> else R)))"

text \<open>
  GetSubstitution for the replacement patterns \<open>$$\<close>, \<open>$&\<close> and \<open>$1\<close> to \<open>$9\<close>; an
  undefined capture gives the empty string, and any other \<open>$\<close> stands for itself.
\<close>

fun index_in :: "string \<Rightarrow> char \<Rightarrow> nat option" where
  "index_in [] c = None"
| "index_in (x # xs) c = (if x = c then Some 0 else map_option Suc (index_in xs c))"

fun getSubstitution :: "match \<Rightarrow> string \<Rightarrow> string" where
  "getSubstitution mt [] = []"
| "getSubstitution mt [x] = [x]"
| "getSubstitution mt (x # y # ys) =
     (if x = CHR ''$'' then
        (if y = CHR ''$'' then CHR ''$'' # getSubstitution mt ys
         else if y = CHR ''&'' then matched mt @ getSubstitution mt ys
         else (case index_in ''123456789'' y of
                 Some n \<Rightarrow>
                   (case captures mt (Suc n) of None \<Rightarrow> [] | Some g \<Rightarrow> g) @ getSubstitution mt ys
               | None \<Rightarrow> x # getSubstitution mt (y # ys)))
      else x # getSubstitution mt (y # ys))"

text \<open>\<open>String.prototype.replace\<close> with a pattern without the \<open>g\<close> flag: the first match.\<close>

definition replace :: "regex \<Rightarrow> string \<Rightarrow> string \<Rightarrow> string" where
  "replace r template S =
     (case fst (exec (literal r False) S) of
        None \<Rightarrow> S
      | Some mt \<Rightarrow>
          take (index mt) S @ getSubstitution mt template
            @ drop (index mt + length (matched mt)) S)"

text \<open>
  \<open>String.prototype.replace\<close> with a \<open>g\<close> pattern: every match, left to right, each
  search starting where the last match ended; after an empty match the search moves on by
  one character. No pattern of this file looks behind the position where it starts, so
  the search in the rest of the input is a search in the rest taken alone.
\<close>

function replaceAll :: "regex \<Rightarrow> string \<Rightarrow> string \<Rightarrow> string" where
  "replaceAll r template S =
     (case scan r 0 S of
        None \<Rightarrow> S
      | Some mt \<Rightarrow>
          take (index mt) S @ getSubstitution mt template @
          (if matched mt = [] then
             (case drop (index mt) S of [] \<Rightarrow> [] | x # xs \<Rightarrow> x # replaceAll r template xs)
           else replaceAll r template (drop (index mt + length (matched mt)) S)))"
  by pat_completeness auto
termination
proof (relation "measure (\<lambda>(r, t, S). length S)")
  show "wf (measure (\<lambda>(r, t, S). length S))" by simp
next
  fix r :: regex and template S :: string and mt :: match and x xs
  assume "drop (index mt) S = x # xs"
  then have "length (drop (index mt) S) = Suc (length xs)" by simp
  then have "length xs < length S" by simp
  then show "((r, template, xs), (r, template, S)) \<in> measure (\<lambda>(r, t, S). length S)"
    by simp
next
  fix r :: regex and template S :: string and mt :: match
  assume found: "scan r 0 S = Some mt" and nonempty: "matched mt \<noteq> []"
  have bound: "scan r' i s = Some mt' \<Longrightarrow> length (matched mt') \<le> length s"
    for r' i s and mt' :: match
  proof (induction r' i s rule: scan.induct)
    case (1 r' i s)
    show ?case
    proof (cases "m r' s Map.empty (\<lambda>s' c. Some (s', c))")
      case None
      with "1.prems" obtain x xs where s: "s = x # xs" and "scan r' (Suc i) xs = Some mt'"
        by (subst (asm) scan.simps) (auto split: list.splits)
      with "1.IH" [OF None s] show ?thesis by simp
    next
      case (Some a)
      with "1.prems" show ?thesis
        by (subst (asm) scan.simps) (auto split: prod.splits)
    qed
  qed
  from nonempty have "0 < length (matched mt)" by simp
  moreover from found have "length (matched mt) \<le> length S" by (rule bound)
  ultimately have "length S - (index mt + length (matched mt)) < length S" by arith
  then show "((r, template, drop (index mt + length (matched mt)) S), (r, template, S))
      \<in> measure (\<lambda>(r, t, S). length S)"
    by simp
qed

section \<open>Numbers\<close>

text \<open>
  The Number values that \<open>parseInt\<close> and the arithmetic of \<open>convertToSeconds\<close> can
  produce: \<open>NaN\<close>, the two infinities, and the doubles that are integers (\<open>-0\<close> is not
  told apart from \<open>0\<close>). \<open>toNumber\<close> is the rounding of a mathematical integer to the
  nearest double, ties to even: exact below \<open>2^53\<close>, infinite from \<open>2^1024\<close> on.
  \<open>scale a 2\<close> is the power of two that leaves \<open>a\<close> a quotient of 53 bits.
\<close>

datatype number = NaN | PosInf | NegInf | Fin int

function scale :: "int \<Rightarrow> int \<Rightarrow> int" where
  "scale a p = (if a div p < 2 ^ 53 then p else scale a (p * 2))"
  by pat_completeness auto
termination
proof (relation "measure (\<lambda>(a, p). nat (a div p))")
  show "wf (measure (\<lambda>(a, p). nat (a div p)))" by simp
next
  fix a p :: int
  assume "\<not> a div p < 2 ^ 53"
  then have "0 < a div p" by simp
  moreover have "a div (p * 2) = (a div p) div 2"
    by (simp add: zdiv_zmult2_eq)
  ultimately have "nat (a div (p * 2)) < nat (a div p)" by simp
  then show "((a, p * 2), (a, p)) \<in> measure (\<lambda>(a, p). nat (a div p))" by simp
qed

declare scale.simps [simp del]

definition toNumber :: "int \<Rightarrow> number" where
  "toNumber n =
     (let a = \<bar>n\<bar> in
      if a < 2 ^ 53 then Fin n
      else
        (let p = scale a 2;
             q = a div p;
             r = a mod p;
             q' = (if p < 2 * r \<or> (2 * r = p \<and> odd q) then q + 1 else q);
             v = q' * p
         in if 2 ^ 1024 \<le> v then (if n < 0 then NegInf else PosInf)
            else Fin (if n < 0 then - v else v)))"

fun mul :: "number \<Rightarrow> number \<Rightarrow> number" where
  "mul NaN y = NaN"
| "mul x NaN = NaN"
| "mul (Fin a) (Fin b) = toNumber (a * b)"
| "mul (Fin a) PosInf = (if a = 0 then NaN else if 0 < a then PosInf else NegInf)"
| "mul (Fin a) NegInf = (if a = 0 then NaN else if 0 < a then NegInf else PosInf)"
| "mul PosInf (Fin b) = (if b = 0 then NaN else if 0 < b then PosInf else NegInf)"
| "mul NegInf (Fin b) = (if b = 0 then NaN else if 0 < b then NegInf else PosInf)"
| "mul PosInf PosInf = PosInf"
| "mul PosInf NegInf = NegInf"
| "mul NegInf PosInf = NegInf"
| "mul NegInf NegInf = PosInf"

fun add :: "number \<Rightarrow> number \<Rightarrow> number" where
  "add NaN y = NaN"
| "add x NaN = NaN"
| "add (Fin a) (Fin b) = toNumber (a + b)"
| "add (Fin a) PosInf = PosInf"
| "add (Fin a) NegInf = NegInf"
| "add PosInf (Fin b) = PosInf"
| "add NegInf (Fin b) = NegInf"
| "add PosInf PosInf = PosInf"
| "add PosInf NegInf = NaN"
| "add NegInf PosInf = NaN"
| "add NegInf NegInf = NegInf"

text \<open>
  \<open>parseInt\<close> with no radix: leading white space is skipped, then a sign, then \<open>0x\<close> or
  \<open>0X\<close> selects radix 16 (radix 10 otherwise); the longest run of digits of the radix is
  read, and no digit at all gives \<open>NaN\<close>.
\<close>

definition digitValue :: "nat \<Rightarrow> char \<Rightarrow> nat option" where
  "digitValue R x =
     (case index_in ''0123456789abcdef'' x of
        Some v \<Rightarrow> if v < R then Some v else None
      | None \<Rightarrow>
          (case index_in ''ABCDEF'' x of
             Some v \<Rightarrow> if v + 10 < R then Some (v + 10) else None
           | None \<Rightarrow> None))"

fun mathInt :: "nat \<Rightarrow> int \<Rightarrow> string \<Rightarrow> int" where
  "mathInt R acc [] = acc"
| "mathInt R acc (x # xs) =
     (case digitValue R x of
        None \<Rightarrow> acc
      | Some v \<Rightarrow> mathInt R (acc * int R + int v) xs)"

definition parseInt :: "string \<Rightarrow> number" where
  "parseInt str =
     (let S = dropWhile isWhiteSpace str;
          neg = (take 1 S = ''-'');
          S1 = (if take 1 S = ''-'' \<or> take 1 S = ''+'' then drop 1 S else S);
          hex = (take 2 S1 = ''0x'' \<or> take 2 S1 = ''0X'');
          R = (if hex then 16 else 10);
          S2 = (if hex then drop 2 S1 else S1)
      in case S2 of
           [] \<Rightarrow> NaN
         | x # xs \<Rightarrow>
             (case digitValue R x of
                None \<Rightarrow> NaN
              | Some v \<Rightarrow>
                  toNumber (if neg then - mathInt R 0 S2 else mathInt R 0 S2)))"

section \<open>The functions of \<open>misc.ts\<close>\<close>

text \<open>
  \<open>convertToSeconds\<close>: the parts between the colons, each read by \<open>parseInt\<close>; three
  parts are hours, minutes and seconds, two are minutes and seconds, one is seconds, and
  any other number of parts leaves the initial \<open>0\<close>.
\<close>

definition convertToSeconds :: "string \<Rightarrow> number" where
  "convertToSeconds time =
     (let parts = map parseInt (split CHR '':'' time) in
      if length parts = 3 then
        add (add (mul (parts ! 0) (Fin 3600)) (mul (parts ! 1) (Fin 60))) (parts ! 2)
      else if length parts = 2 then add (mul (parts ! 0) (Fin 60)) (parts ! 1)
      else if length parts = 1 then parts ! 0
      else Fin 0)"

text \<open>The three patterns of \<open>phaseDescription\<close> and the two of the title clean-up.\<close>

definition urlPattern :: regex where
  \<open>urlPattern =
     seq [Lit ''<a href="'', Group 1 (Plus (Class (Not CHR ''"''))), Lit ''"'']\<close>

definition invidiousPattern :: regex where
  \<open>invidiousPattern =
     seq [Lit ''<a href="'', Group 1 (Plus (Class (Not CHR ''"''))),
          Lit ''" data-onclick="jump_to_time" data-jump-time="'',
          Group 2 (Plus (Class Digit)), Lit ''">'',
          Group 3 (seq [Plus (Class Digit), Lit '':'', Plus (Class Digit),
                        Opt (Seq (Lit '':'') (Plus (Class Digit)))]),
          Lit ''</a>'', Star (Class Space), Group 4 (Plus (Class Dot))]\<close>

definition ytJsPattern :: regex where
  \<open>ytJsPattern =
     seq [Lit ''&'', Opt (Seq (LazyStar (Class NotSpace)) (Lit ''&'')), Lit ''t='',
          Group 1 (Plus (Class Digit)), Star (Class Space), Lit ''s'',
          LazyStar (Class Dot), Lit ''<span'', Star (Class (Not CHR ''>'')), Lit ''>'',
          Group 2 (Star (Class (Not CHR ''<''))), Lit ''</span>'',
          LazyStar (Class Dot), Lit ''>'', Group 3 (LazyStar (Class Dot)), Lit ''</span>'']\<close>

definition tagPattern :: regex where
  \<open>tagPattern = seq [Lit ''<'', Plus (Class (Not CHR ''>'')), Lit ''>'']\<close>

definition newlinePattern :: regex where
  "newlinePattern = Lit [CHR 0x0A]"

definition anchorTemplate :: string where
  \<open>anchorTemplate = ''<a href="$1" target="_blank" rel="noopener noreferrer" class="link"''\<close>

text \<open>
  The result types. \<open>timePretty\<close> holds an element of the match array as it is, so it is
  an optional string (\<open>None\<close> is \<open>undefined\<close>).
\<close>

record TimestampEntry =
  title :: string
  time :: number
  timePretty :: "string option"

record PhasedDescription =
  description :: string
  timestamps :: "TimestampEntry list"

text \<open>
  The only exception the body can raise: \<open>convertToSeconds\<close> calls \<open>split\<close> on its
  argument, which throws a TypeError when the argument is \<open>undefined\<close>.
\<close>

datatype error = TypeError

text \<open>
  What the callback of \<open>lines.forEach\<close> reads and writes: the three RegExp objects made
  before the loop, the array \<open>filteredLines\<close> and the array \<open>timestamps\<close> (here
  \<open>entries\<close>).
\<close>

record scope =
  urlRegex :: regexp
  timestampRegexInvidious :: regexp
  timestampRegexYtJs :: regexp
  filteredLines :: "string list"
  entries :: "TimestampEntry list"

text \<open>Element \<open>n\<close> of a match array.\<close>

definition element :: "match \<Rightarrow> nat \<Rightarrow> string option" where
  "element mt n = (if n = 0 then Some (matched mt) else captures mt n)"

text \<open>\<open>he.decode\<close> is a library function; it is the parameter \<open>decode\<close>.\<close>

definition visit :: "(string \<Rightarrow> string) \<Rightarrow> bool \<Rightarrow> string \<Rightarrow> scope \<Rightarrow> error + scope" where
  "visit decode usingYoutubeJs line sc =
     (let (urlMatch, R1) = exec (urlRegex sc) line;
          (timestampMatch, R2) =
             exec (if usingYoutubeJs then timestampRegexYtJs sc else timestampRegexInvidious sc)
                  (if usingYoutubeJs then line @ ''</span>'' else line);
          sc1 = sc\<lparr>urlRegex := R1\<rparr>;
          sc2 = (if usingYoutubeJs then sc1\<lparr>timestampRegexYtJs := R2\<rparr>
                 else sc1\<lparr>timestampRegexInvidious := R2\<rparr>)
      in
      if urlMatch \<noteq> None \<and> timestampMatch = None then
        Inr (sc2\<lparr>filteredLines :=
                    filteredLines sc2 @ [replace urlPattern anchorTemplate line]\<rparr>)
      else
        (case timestampMatch of
           Some tm \<Rightarrow>
             (let time = element tm (if usingYoutubeJs then 1 else 2);
                  timestamp = element tm (if usingYoutubeJs then 2 else 3);
                  title =
                    (case element tm (if usingYoutubeJs then 3 else 4) of
                       None \<Rightarrow> [] | Some t \<Rightarrow> t)
              in case time of
                   None \<Rightarrow> Inl TypeError
                 | Some t \<Rightarrow>
                     Inr (sc2\<lparr>entries := entries sc2 @
                       [\<lparr>title =
                            decode (trim (replaceAll newlinePattern []
                                            (replaceAll tagPattern [] title))),
                         time = convertToSeconds t,
                         timePretty = timestamp\<rparr>]\<rparr>))
         | None \<Rightarrow> Inr (sc2\<lparr>filteredLines := filteredLines sc2 @ [line]\<rparr>)))"

fun forEach :: "('a \<Rightarrow> 's \<Rightarrow> error + 's) \<Rightarrow> 'a list \<Rightarrow> 's \<Rightarrow> error + 's" where
  "forEach f [] sc = Inr sc"
| "forEach f (x # xs) sc = (case f x sc of Inl e \<Rightarrow> Inl e | Inr sc' \<Rightarrow> forEach f xs sc')"

definition run :: "(string \<Rightarrow> string) \<Rightarrow> string \<Rightarrow> bool \<Rightarrow> error + scope" where
  "run decode content usingYoutubeJs =
     forEach (visit decode usingYoutubeJs) (split CHR 0x0A content)
       \<lparr>urlRegex = literal urlPattern False,
        timestampRegexInvidious = literal invidiousPattern False,
        timestampRegexYtJs = literal ytJsPattern False,
        filteredLines = [],
        entries = []\<rparr>"

definition phaseDescription ::
    "(string \<Rightarrow> string) \<Rightarrow> string \<Rightarrow> bool \<Rightarrow> error + PhasedDescription" where
  "phaseDescription decode content usingYoutubeJs =
     (case run decode content usingYoutubeJs of
        Inl e \<Rightarrow> Inl e
      | Inr sc \<Rightarrow>
          Inr \<lparr>description = join [CHR 0x0A] (filteredLines sc), timestamps = entries sc\<rparr>)"

section \<open>The vocabulary of the specification\<close>

text \<open>
  The specification classifies each line: a timestamp line is one on which the timestamp
  pattern of the mode matches (in the alternate mode, on the line with \<open></span>\<close>
  appended), a URL line one on which the anchor pattern matches.
\<close>

definition timestampMatch :: "bool \<Rightarrow> string \<Rightarrow> match option" where
  "timestampMatch usingYoutubeJs line =
     scan (if usingYoutubeJs then ytJsPattern else invidiousPattern) 0
          (if usingYoutubeJs then line @ ''</span>'' else line)"

definition isTimestampLine :: "bool \<Rightarrow> string \<Rightarrow> bool" where
  "isTimestampLine usingYoutubeJs line = (timestampMatch usingYoutubeJs line \<noteq> None)"

definition isUrlLine :: "string \<Rightarrow> bool" where
  "isUrlLine line = (scan urlPattern 0 line \<noteq> None)"

text \<open>An input contains an anchor tag when the anchor pattern matches somewhere in it.\<close>

definition containsAnchor :: "string \<Rightarrow> bool" where
  "containsAnchor content = (scan urlPattern 0 content \<noteq> None)"

definition rewriteAnchor :: "string \<Rightarrow> string" where
  "rewriteAnchor line = replace urlPattern anchorTemplate line"

text \<open>What a line that is not a timestamp line leaves in the description.\<close>

definition retained :: "string \<Rightarrow> string" where
  "retained line = (if isUrlLine line then rewriteAnchor line else line)"

text \<open>The title of an entry before the entities are decoded.\<close>

definition strippedTitle :: "string \<Rightarrow> string" where
  "strippedTitle t = trim (replaceAll newlinePattern [] (replaceAll tagPattern [] t))"

text \<open>
  The entry of a timestamp line: the time field, the clock field and the title field are
  the captures 2, 3, 4 of the legacy pattern and 1, 2, 3 of the alternate one.
\<close>

definition timeField :: "bool \<Rightarrow> nat" where
  "timeField usingYoutubeJs = (if usingYoutubeJs then 1 else 2)"

definition clockField :: "bool \<Rightarrow> nat" where
  "clockField usingYoutubeJs = (if usingYoutubeJs then 2 else 3)"

definition titleField :: "bool \<Rightarrow> nat" where
  "titleField usingYoutubeJs = (if usingYoutubeJs then 3 else 4)"

definition timestampOf :: "(string \<Rightarrow> string) \<Rightarrow> bool \<Rightarrow> string \<Rightarrow> TimestampEntry option" where
  "timestampOf decode usingYoutubeJs line =
     (case timestampMatch usingYoutubeJs line of
        None \<Rightarrow> None
      | Some tm \<Rightarrow>
          (case (captures tm (timeField usingYoutubeJs),
                 captures tm (titleField usingYoutubeJs)) of
             (Some t, Some ti) \<Rightarrow>
               Some \<lparr>title = decode (strippedTitle ti),
                     time = convertToSeconds t,
                     timePretty = captures tm (clockField usingYoutubeJs)\<rparr>
           | _ \<Rightarrow> None))"

text \<open>The value of a string of decimal digits, and the numbers that are not negative.\<close>

definition digit :: "char \<Rightarrow> int" where
  "digit x =
     (if x = CHR ''1'' then 1 else if x = CHR ''2'' then 2 else if x = CHR ''3'' then 3
      else if x = CHR ''4'' then 4 else if x = CHR ''5'' then 5 else if x = CHR ''6'' then 6
      else if x = CHR ''7'' then 7 else if x = CHR ''8'' then 8 else if x = CHR ''9'' then 9
      else 0)"

definition decimal :: "string \<Rightarrow> int" where
  "decimal d = foldl (\<lambda>a x. a * 10 + digit x) 0 d"

fun notNegative :: "number \<Rightarrow> bool" where
  "notNegative (Fin n) = (0 \<le> n)"
| "notNegative PosInf = True"
| "notNegative NegInf = False"
| "notNegative NaN = False"

fun isFinite :: "number \<Rightarrow> bool" where
  "isFinite (Fin n) = True"
| "isFinite PosInf = False"
| "isFinite NegInf = False"
| "isFinite NaN = False"

text \<open>The run of digits that the time field of a timestamp line captures.\<close>

definition timeDigits :: "bool \<Rightarrow> string \<Rightarrow> string option" where
  "timeDigits usingYoutubeJs line =
     (case timestampMatch usingYoutubeJs line of
        None \<Rightarrow> None
      | Some tm \<Rightarrow> captures tm (timeField usingYoutubeJs))"


section \<open>What a pattern matches\<close>

text \<open>
  \<open>matches r w c c'\<close>: the pattern \<open>r\<close> can match exactly the text \<open>w\<close>, taking the
  captures from \<open>c\<close> to \<open>c'\<close>. The matcher \<open>m\<close> finds such a text whenever there is one.
\<close>

inductive matches :: "regex \<Rightarrow> string \<Rightarrow> caps \<Rightarrow> caps \<Rightarrow> bool" where
  m_Lit: "matches (Lit cs) cs c c"
| m_Class: "in_cls X x \<Longrightarrow> matches (Class X) [x] c c"
| m_Seq: "matches r1 w1 c c1 \<Longrightarrow> matches r2 w2 c1 c2 \<Longrightarrow> matches (Seq r1 r2) (w1 @ w2) c c2"
| m_Star0: "matches (Star r) [] c c"
| m_StarS: "matches r w1 c c1 \<Longrightarrow> w1 \<noteq> [] \<Longrightarrow> matches (Star r) w2 c1 c2 \<Longrightarrow>
     matches (Star r) (w1 @ w2) c c2"
| m_Lazy0: "matches (LazyStar r) [] c c"
| m_LazyS: "matches r w1 c c1 \<Longrightarrow> w1 \<noteq> [] \<Longrightarrow> matches (LazyStar r) w2 c1 c2 \<Longrightarrow>
     matches (LazyStar r) (w1 @ w2) c c2"
| m_Opt0: "matches (Opt r) [] c c"
| m_Opt1: "matches r w c c' \<Longrightarrow> matches (Opt r) w c c'"
| m_Group: "matches r w c c' \<Longrightarrow> matches (Group n r) w c (c'(n \<mapsto> w))"



text \<open>
  The RegExp objects of a scope are the three that \<open>phaseDescription\<close> creates: none has
  the \<open>g\<close> flag.
\<close>

definition fresh :: "scope \<Rightarrow> bool" where
  "fresh sc \<longleftrightarrow> urlRegex sc = literal urlPattern False
     \<and> timestampRegexInvidious sc = literal invidiousPattern False
     \<and> timestampRegexYtJs sc = literal ytJsPattern False"

section \<open>The matcher finds exactly the matches\<close>

lemma m_sound:
  "m r s c k = Some y \<Longrightarrow> \<exists>w s' c'. s = w @ s' \<and> matches r w c c' \<and> k s' c' = Some y"
proof (induction r s c k arbitrary: y rule: m.induct)
  case (1 cs s c k)
  then have "take (length cs) s = cs" "k (drop (length cs) s) c = Some y"
    by (auto split: if_splits)
  then have "s = cs @ drop (length cs) s" by (metis append_take_drop_id)
  with \<open>k (drop (length cs) s) c = Some y\<close> show ?case
    using m_Lit by blast
next
  case (2 X s c k)
  then obtain x xs where "s = x # xs" "in_cls X x" "k xs c = Some y"
    by (auto split: list.splits if_splits)
  then have "s = [x] @ xs \<and> matches (Class X) [x] c c \<and> k xs c = Some y"
    by (simp add: m_Class)
  then show ?case by blast
next
  case (3 r1 r2 s c k)
  from "3.prems" have "m r1 s c (\<lambda>s' c'. m r2 s' c' k) = Some y" by simp
  from "3.IH"(2) [OF this] obtain w1 s1 c1 where
    a: "s = w1 @ s1" "matches r1 w1 c c1" "m r2 s1 c1 k = Some y" by blast
  from "3.IH"(1) [OF a(3)] obtain w2 s2 c2 where
    b: "s1 = w2 @ s2" "matches r2 w2 c1 c2" "k s2 c2 = Some y" by blast
  from a b have "s = (w1 @ w2) @ s2 \<and> matches (Seq r1 r2) (w1 @ w2) c c2 \<and> k s2 c2 = Some y"
    by (simp add: m_Seq)
  then show ?case by blast
next
  case (4 r s c k)
  let ?K = "\<lambda>s' c'. if length s' < length s then m (Star r) s' c' k else None"
  show ?case
  proof (cases "m r s c ?K")
    case None
    with "4.prems" have "k s c = Some y" by simp
    then have "s = [] @ s \<and> matches (Star r) [] c c \<and> k s c = Some y"
      by (simp add: m_Star0)
    then show ?thesis by blast
  next
    case (Some y')
    with "4.prems" have y: "m r s c ?K = Some y" by simp
    from "4.IH"(2) [OF y] obtain w1 s1 c1 where
      a: "s = w1 @ s1" "matches r w1 c c1" "?K s1 c1 = Some y" by blast
    from a(3) have l: "length s1 < length s" and st: "m (Star r) s1 c1 k = Some y"
      by (auto split: if_splits)
    from "4.IH"(1) [OF l st] obtain w2 s2 c2 where
      b: "s1 = w2 @ s2" "matches (Star r) w2 c1 c2" "k s2 c2 = Some y" by blast
    from a(1) l have "w1 \<noteq> []" by auto
    with a b have "s = (w1 @ w2) @ s2 \<and> matches (Star r) (w1 @ w2) c c2 \<and> k s2 c2 = Some y"
      by (simp add: m_StarS)
    then show ?thesis by blast
  qed
next
  case (5 r s c k)
  let ?K = "\<lambda>s' c'. if length s' < length s then m (LazyStar r) s' c' k else None"
  show ?case
  proof (cases "k s c")
    case (Some y')
    with "5.prems" have "k s c = Some y" by simp
    then have "s = [] @ s \<and> matches (LazyStar r) [] c c \<and> k s c = Some y"
      by (simp add: m_Lazy0)
    then show ?thesis by blast
  next
    case None
    with "5.prems" have y: "m r s c ?K = Some y" by simp
    from "5.IH"(2) [OF None y] obtain w1 s1 c1 where
      a: "s = w1 @ s1" "matches r w1 c c1" "?K s1 c1 = Some y" by blast
    from a(3) have l: "length s1 < length s" and st: "m (LazyStar r) s1 c1 k = Some y"
      by (auto split: if_splits)
    from "5.IH"(1) [OF None l st] obtain w2 s2 c2 where
      b: "s1 = w2 @ s2" "matches (LazyStar r) w2 c1 c2" "k s2 c2 = Some y" by blast
    from a(1) l have "w1 \<noteq> []" by auto
    with a b have "s = (w1 @ w2) @ s2 \<and> matches (LazyStar r) (w1 @ w2) c c2 \<and> k s2 c2 = Some y"
      by (simp add: m_LazyS)
    then show ?thesis by blast
  qed
next
  case (6 r s c k)
  show ?case
  proof (cases "m r s c k")
    case None
    with "6.prems" have "k s c = Some y" by simp
    then have "s = [] @ s \<and> matches (Opt r) [] c c \<and> k s c = Some y"
      by (simp add: m_Opt0)
    then show ?thesis by blast
  next
    case (Some y')
    with "6.prems" have "m r s c k = Some y" by simp
    from "6.IH" [OF this] show ?thesis using m_Opt1 by blast
  qed
next
  case (7 n r s c k)
  from "7.prems" have "m r s c (\<lambda>s' c'. k s' (c'(n \<mapsto> take (length s - length s') s))) = Some y"
    by simp
  from "7.IH" [OF this] obtain w s' c' where
    a: "s = w @ s'" "matches r w c c'" "k s' (c'(n \<mapsto> take (length s - length s') s)) = Some y"
    by blast
  from a(1) have "take (length s - length s') s = w" by simp
  with a have "s = w @ s' \<and> matches (Group n r) w c (c'(n \<mapsto> w)) \<and> k s' (c'(n \<mapsto> w)) = Some y"
    by (simp add: m_Group)
  then show ?case by blast
qed

lemma m_complete:
  "matches r w c c' \<Longrightarrow> k s' c' \<noteq> None \<Longrightarrow> m r (w @ s') c k \<noteq> None"
proof (induction arbitrary: k s' rule: matches.induct)
  case (m_Lit cs c)
  then show ?case by simp
next
  case (m_Class X x c)
  then show ?case by simp
next
  case (m_Seq r1 w1 c c1 r2 w2 c2)
  have "m r2 (w2 @ s') c1 k \<noteq> None" using m_Seq.IH(2) m_Seq.prems by blast
  then have "m r1 (w1 @ (w2 @ s')) c (\<lambda>s c. m r2 s c k) \<noteq> None"
    by (rule m_Seq.IH(1))
  then show ?case by simp
next
  case (m_Star0 r c)
  then show ?case by (auto split: option.splits)
next
  case (m_StarS r w1 c c1 w2 c2)
  let ?s = "(w1 @ w2) @ s'"
  let ?K = "\<lambda>t c'. if length t < length ?s then m (Star r) t c' k else None"
  have "m (Star r) (w2 @ s') c1 k \<noteq> None" using m_StarS.IH(2) m_StarS.prems by blast
  with \<open>w1 \<noteq> []\<close> have "?K (w2 @ s') c1 \<noteq> None" by simp
  then have "m r (w1 @ (w2 @ s')) c ?K \<noteq> None" by (rule m_StarS.IH(1))
  then show ?case by (auto split: option.splits)
next
  case (m_Lazy0 r c)
  then show ?case by (auto split: option.splits)
next
  case (m_LazyS r w1 c c1 w2 c2)
  let ?s = "(w1 @ w2) @ s'"
  let ?K = "\<lambda>t c'. if length t < length ?s then m (LazyStar r) t c' k else None"
  have "m (LazyStar r) (w2 @ s') c1 k \<noteq> None" using m_LazyS.IH(2) m_LazyS.prems by blast
  with \<open>w1 \<noteq> []\<close> have "?K (w2 @ s') c1 \<noteq> None" by simp
  then have "m r (w1 @ (w2 @ s')) c ?K \<noteq> None" by (rule m_LazyS.IH(1))
  then show ?case by (auto split: option.splits)
next
  case (m_Opt0 r c)
  then show ?case by (auto split: option.splits)
next
  case (m_Opt1 r w c c')
  then have "m r (w @ s') c k \<noteq> None" by blast
  then show ?case by (auto split: option.splits)
next
  case (m_Group r w c c' n)
  let ?K = "\<lambda>t c''. k t (c''(n \<mapsto> take (length (w @ s') - length t) (w @ s')))"
  have "?K s' c' = k s' (c'(n \<mapsto> w))" by simp
  with m_Group.prems have "?K s' c' \<noteq> None" by metis
  then have "m r (w @ s') c ?K \<noteq> None" by (rule m_Group.IH)
  then show ?case by simp
qed



lemma exec_literal:
  "\<not> global R \<Longrightarrow> exec R S = (scan (source R) 0 S, R)"
  by (simp add: exec_def split: option.splits)

lemma scan_None_iff:
  "scan r i s = None \<longleftrightarrow> (\<forall>j \<le> length s. m r (drop j s) Map.empty (\<lambda>s' c. Some (s', c)) = None)"
proof (induction s arbitrary: i)
  case Nil
  show ?case by (subst scan.simps) (auto split: option.splits)
next
  case (Cons x xs)
  have "(\<forall>j \<le> length (x # xs). m r (drop j (x # xs)) Map.empty (\<lambda>s' c. Some (s', c)) = None)
     \<longleftrightarrow> m r (x # xs) Map.empty (\<lambda>s' c. Some (s', c)) = None
         \<and> (\<forall>j \<le> length xs. m r (drop j xs) Map.empty (\<lambda>s' c. Some (s', c)) = None)"
    (is "?L \<longleftrightarrow> ?A \<and> ?B")
  proof
    assume l: ?L
    have ?A using l [rule_format, of 0] by simp
    moreover have ?B
    proof (intro allI impI)
      fix j assume "j \<le> length xs"
      then show "m r (drop j xs) Map.empty (\<lambda>s' c. Some (s', c)) = None"
        using l [rule_format, of "Suc j"] by simp
    qed
    ultimately show "?A \<and> ?B" ..
  next
    assume ab: "?A \<and> ?B"
    show ?L
    proof (intro allI impI)
      fix j assume "j \<le> length (x # xs)"
      then show "m r (drop j (x # xs)) Map.empty (\<lambda>s' c. Some (s', c)) = None"
        using ab by (cases j) auto
    qed
  qed
  then show ?case
    by (subst scan.simps) (auto simp: Cons.IH split: option.splits)
qed

lemma scan_Some:
  "scan r i s = Some mt \<Longrightarrow>
     i \<le> index mt \<and>
     s = take (index mt - i) s @ matched mt @ drop (index mt - i + length (matched mt)) s \<and>
     matches r (matched mt) Map.empty (captures mt) \<and>
     (\<forall>j < index mt - i. m r (drop j s) Map.empty (\<lambda>s' c. Some (s', c)) = None)"
proof (induction s arbitrary: i)
  case Nil
  then obtain s' c where a: "m r [] Map.empty (\<lambda>s' c. Some (s', c)) = Some (s', c)"
      and mt: "mt = \<lparr>index = i, matched = take (length ([]::string) - length s') [], captures = c\<rparr>"
    by (subst (asm) scan.simps) (auto split: option.splits)
  from m_sound [OF a] obtain w where "[] = w @ s'" "matches r w Map.empty c" by auto
  then have "w = []" "s' = []" "matches r [] Map.empty c" by auto
  with mt show ?case by simp
next
  case (Cons x xs)
  show ?case
  proof (cases "m r (x # xs) Map.empty (\<lambda>s' c. Some (s', c))")
    case None
    with Cons.prems have "scan r (Suc i) xs = Some mt"
      by (subst (asm) scan.simps) simp
    from Cons.IH [OF this] have
      a: "Suc i \<le> index mt"
         "xs = take (index mt - Suc i) xs @ matched mt
                 @ drop (index mt - Suc i + length (matched mt)) xs"
         "matches r (matched mt) Map.empty (captures mt)"
         "\<forall>j < index mt - Suc i. m r (drop j xs) Map.empty (\<lambda>s' c. Some (s', c)) = None"
      by blast+
    from a(1) obtain d where d: "index mt - i = Suc d" "index mt - Suc i = d"
      by (metis Suc_diff_Suc Suc_le_lessD)
    have b: "\<forall>j < index mt - i. m r (drop j (x # xs)) Map.empty (\<lambda>s' c. Some (s', c)) = None"
    proof (intro allI impI)
      fix j assume "j < index mt - i"
      then show "m r (drop j (x # xs)) Map.empty (\<lambda>s' c. Some (s', c)) = None"
        using a(4) None d by (cases j) auto
    qed
    have "x # xs = take (index mt - i) (x # xs) @ matched mt
                 @ drop (index mt - i + length (matched mt)) (x # xs)"
      using a(2) d by simp
    with a b show ?thesis by simp
  next
    case (Some a)
    obtain s' c where [simp]: "a = (s', c)" by (cases a)
    from Some Cons.prems
    have mt: "mt = \<lparr>index = i, matched = take (length (x # xs) - length s') (x # xs), captures = c\<rparr>"
      by (subst (asm) scan.simps) auto
    from Some have "m r (x # xs) Map.empty (\<lambda>s' c. Some (s', c)) = Some (s', c)" by simp
    from m_sound [OF this] obtain w where w: "x # xs = w @ s'" "matches r w Map.empty c" by auto
    then have "take (length (x # xs) - length s') (x # xs) = w"
      by (metis add_diff_cancel_right' append_eq_conv_conj length_append)
    with mt have mt': "mt = \<lparr>index = i, matched = w, captures = c\<rparr>" by simp
    show ?thesis unfolding mt' using w by simp
  qed
qed

lemma scan_complete:
  assumes "matches r w Map.empty c"
  shows "scan r i (pre @ w @ post) \<noteq> None"
proof
  assume "scan r i (pre @ w @ post) = None"
  then have "\<forall>j \<le> length (pre @ w @ post).
      m r (drop j (pre @ w @ post)) Map.empty (\<lambda>s' c. Some (s', c)) = None"
    by (simp only: scan_None_iff)
  from this [rule_format, of "length pre"]
  have "m r (w @ post) Map.empty (\<lambda>s' c. Some (s', c)) = None" by simp
  moreover have "m r (w @ post) Map.empty (\<lambda>s' c. Some (s', c)) \<noteq> None"
    by (rule m_complete [OF assms]) simp
  ultimately show False by contradiction
qed

lemma scan_index_irrelevant: "scan r i s = None \<longleftrightarrow> scan r j s = None"
  by (simp add: scan_None_iff)



lemma matches_Lit [simp]: "matches (Lit cs) w c c' \<longleftrightarrow> w = cs \<and> c' = c"
  by (subst matches.simps) auto

lemma matches_Class [simp]:
  "matches (Class X) w c c' \<longleftrightarrow> (\<exists>x. w = [x] \<and> in_cls X x) \<and> c' = c"
  by (subst matches.simps) auto

lemma matches_Seq:
  "matches (Seq r1 r2) w c c' \<longleftrightarrow>
     (\<exists>w1 w2 c1. w = w1 @ w2 \<and> matches r1 w1 c c1 \<and> matches r2 w2 c1 c')"
  by (subst matches.simps) auto

lemma matches_Group:
  "matches (Group n r) w c c' \<longleftrightarrow> (\<exists>c1. matches r w c c1 \<and> c' = c1(n \<mapsto> w))"
  by (subst matches.simps) auto

lemma matches_Opt:
  "matches (Opt r) w c c' \<longleftrightarrow> (w = [] \<and> c' = c) \<or> matches r w c c'"
  by (subst matches.simps) auto

lemma matches_Star_Class_D:
  "matches r w c c' \<Longrightarrow> r = Star (Class X) \<or> r = LazyStar (Class X) \<Longrightarrow>
     list_all (in_cls X) w \<and> c' = c"
  by (induction rule: matches.induct) auto

lemma matches_Star_Class_I: "list_all (in_cls X) w \<Longrightarrow> matches (Star (Class X)) w c c"
proof (induction w)
  case Nil
  show ?case by (rule m_Star0)
next
  case (Cons x w)
  then have "matches (Class X) [x] c c" "matches (Star (Class X)) w c c" by simp_all
  then have "matches (Star (Class X)) ([x] @ w) c c" by (intro m_StarS) simp_all
  then show ?case by simp
qed

lemma matches_LazyStar_Class_I: "list_all (in_cls X) w \<Longrightarrow> matches (LazyStar (Class X)) w c c"
proof (induction w)
  case Nil
  show ?case by (rule m_Lazy0)
next
  case (Cons x w)
  then have "matches (Class X) [x] c c" "matches (LazyStar (Class X)) w c c" by simp_all
  then have "matches (LazyStar (Class X)) ([x] @ w) c c" by (intro m_LazyS) simp_all
  then show ?case by simp
qed

lemma matches_Star_Class [simp]:
  "matches (Star (Class X)) w c c' \<longleftrightarrow> list_all (in_cls X) w \<and> c' = c"
  using matches_Star_Class_D matches_Star_Class_I by blast

lemma matches_LazyStar_Class [simp]:
  "matches (LazyStar (Class X)) w c c' \<longleftrightarrow> list_all (in_cls X) w \<and> c' = c"
  using matches_Star_Class_D matches_LazyStar_Class_I by blast

lemma matches_Plus_Class [simp]:
  "matches (Plus (Class X)) w c c' \<longleftrightarrow> w \<noteq> [] \<and> list_all (in_cls X) w \<and> c' = c"
proof
  assume "matches (Plus (Class X)) w c c'"
  then show "w \<noteq> [] \<and> list_all (in_cls X) w \<and> c' = c"
    by (auto simp: Plus_def matches_Seq)
next
  assume a: "w \<noteq> [] \<and> list_all (in_cls X) w \<and> c' = c"
  then obtain x xs where "w = [x] @ xs" by (cases w) auto
  with a have "matches (Class X) [x] c c" "matches (Star (Class X)) xs c c'" by simp_all
  then have "matches (Seq (Class X) (Star (Class X))) ([x] @ xs) c c'" by (rule m_Seq)
  with \<open>w = [x] @ xs\<close> show "matches (Plus (Class X)) w c c'" by (simp add: Plus_def)
qed

section \<open>Splitting and joining lines\<close>

lemma split_not_Nil [simp]: "split sep s \<noteq> []"
  by (induction s) (auto split: list.splits)

lemma split_no_sep: "l \<in> set (split sep s) \<Longrightarrow> sep \<notin> set l"
  by (induction s arbitrary: l) (auto split: list.splits if_splits)

lemma join_split: "join [sep] (split sep s) = s"
proof (induction s)
  case Nil
  show ?case by simp
next
  case (Cons x xs)
  obtain y ys where ys: "split sep xs = y # ys" by (cases "split sep xs") (auto)
  with Cons show ?case by (cases ys) auto
qed

lemma split_append_no_sep:
  "sep \<notin> set l \<Longrightarrow> split sep (l @ sep # s) = l # split sep s"
  by (induction l) (auto split: list.splits)

lemma split_no_sep_single: "sep \<notin> set l \<Longrightarrow> split sep l = [l]"
  by (induction l) (auto split: list.splits)

lemma split_join:
  "ls \<noteq> [] \<Longrightarrow> list_all (\<lambda>l. sep \<notin> set l) ls \<Longrightarrow> split sep (join [sep] ls) = ls"
proof (induction ls)
  case Nil
  then show ?case by simp
next
  case (Cons x ls)
  show ?case
  proof (cases ls)
    case Nil
    with Cons.prems show ?thesis by (simp add: split_no_sep_single)
  next
    case (Cons y ys)
    with Cons.IH Cons.prems have "split sep (join [sep] ls) = ls" by simp
    with Cons Cons.prems show ?thesis by (simp add: split_append_no_sep)
  qed
qed



section \<open>The patterns of \<open>phaseDescription\<close>\<close>

lemma url_matches:
  "matches urlPattern w Map.empty c \<longleftrightarrow>
     (\<exists>u. w = ''<a href=\"'' @ u @ ''\"'' \<and> u \<noteq> [] \<and> CHR ''\"'' \<notin> set u \<and> c = [1 \<mapsto> u])"
  by (auto simp: urlPattern_def matches_Seq matches_Group list_all_iff)

lemma invidious_matches:
  "matches invidiousPattern w Map.empty c \<Longrightarrow>
     \<exists>u d p t rest. w = ''<a href=\"'' @ u @ ''\"'' @ rest \<and> u \<noteq> [] \<and> CHR ''\"'' \<notin> set u
        \<and> d \<noteq> [] \<and> list_all isDigit d \<and> t \<noteq> [] \<and> list_all (in_cls Dot) t
        \<and> c = [1 \<mapsto> u, 2 \<mapsto> d, 3 \<mapsto> p, 4 \<mapsto> t]"
  apply (simp add: invidiousPattern_def matches_Seq matches_Group matches_Opt list_all_iff)
  apply (elim exE conjE)
  apply (simp add: list_all_iff)
  apply blast
  done

lemma ytJs_matches:
  "matches ytJsPattern w Map.empty c \<Longrightarrow>
     \<exists>d p t. d \<noteq> [] \<and> list_all isDigit d \<and> list_all (in_cls Dot) t
        \<and> c = [1 \<mapsto> d, 2 \<mapsto> p, 3 \<mapsto> t]"
  apply (simp add: ytJsPattern_def matches_Seq matches_Group matches_Opt list_all_iff)
  apply (elim exE conjE)
  apply (auto simp: list_all_iff)
  done

section \<open>The loop over the lines\<close>

lemma timestampMatch_captures:
  assumes "timestampMatch yt line = Some tm"
  shows "\<exists>t p ti. captures tm (timeField yt) = Some t \<and> captures tm (clockField yt) = Some p
           \<and> captures tm (titleField yt) = Some ti \<and> t \<noteq> [] \<and> list_all isDigit t
           \<and> list_all (in_cls Dot) ti"
proof (cases yt)
  case True
  with assms have "scan ytJsPattern 0 (line @ ''</span>'') = Some tm"
    by (simp add: timestampMatch_def)
  then have "matches ytJsPattern (matched tm) Map.empty (captures tm)"
    by (blast dest: scan_Some)
  from ytJs_matches [OF this] True show ?thesis
    by (auto simp: timeField_def clockField_def titleField_def)
next
  case False
  with assms have "scan invidiousPattern 0 line = Some tm"
    by (simp add: timestampMatch_def)
  then have "matches invidiousPattern (matched tm) Map.empty (captures tm)"
    by (blast dest: scan_Some)
  from invidious_matches [OF this] False show ?thesis
    by (auto simp: timeField_def clockField_def titleField_def)
qed

lemma timestampOf_total:
  "isTimestampLine yt line \<Longrightarrow> \<exists>e. timestampOf decode yt line = Some e"
  unfolding isTimestampLine_def timestampOf_def
  using timestampMatch_captures [of yt line] by (auto split: option.splits)

lemma timestampOf_None:
  "\<not> isTimestampLine yt line \<Longrightarrow> timestampOf decode yt line = None"
  by (simp add: isTimestampLine_def timestampOf_def)

lemma visit_fresh:
  assumes "fresh sc"
  shows "visit decode yt line sc =
     Inr (case timestampOf decode yt line of
            Some e \<Rightarrow> sc\<lparr>entries := entries sc @ [e]\<rparr>
          | None \<Rightarrow> sc\<lparr>filteredLines := filteredLines sc @ [retained line]\<rparr>)"
proof (cases "timestampMatch yt line")
  case None
  then have "timestampOf decode yt line = None" by (simp add: timestampOf_def)
  with None assms show ?thesis
    by (cases yt)
       (auto simp: visit_def fresh_def exec_literal literal_def timestampMatch_def retained_def
          isUrlLine_def rewriteAnchor_def)
next
  case (Some tm)
  from timestampMatch_captures [OF Some] obtain t p ti where
    c: "captures tm (timeField yt) = Some t" "captures tm (clockField yt) = Some p"
       "captures tm (titleField yt) = Some ti" by blast
  with Some have "timestampOf decode yt line =
      Some \<lparr>title = decode (strippedTitle ti), time = convertToSeconds t, timePretty = Some p\<rparr>"
    by (simp add: timestampOf_def)
  with Some c assms show ?thesis
    by (cases yt)
       (auto simp: visit_def fresh_def exec_literal literal_def timestampMatch_def element_def
          timeField_def clockField_def titleField_def strippedTitle_def)
qed

lemma visit_fresh_fresh:
  "fresh sc \<Longrightarrow> visit decode yt line sc = Inr sc' \<Longrightarrow> fresh sc'"
  by (auto simp: visit_fresh fresh_def split: option.splits)

lemma forEach_fresh:
  "fresh sc \<Longrightarrow>
   forEach (visit decode yt) ls sc =
     Inr (sc\<lparr>filteredLines :=
               filteredLines sc @ map retained (filter (\<lambda>l. \<not> isTimestampLine yt l) ls),
             entries :=
               entries sc @ map (\<lambda>l. the (timestampOf decode yt l)) (filter (isTimestampLine yt) ls)\<rparr>)"
proof (induction ls arbitrary: sc)
  case Nil
  then show ?case by simp
next
  case (Cons l ls)
  show ?case
  proof (cases "isTimestampLine yt l")
    case True
    then obtain e where e: "timestampOf decode yt l = Some e"
      using timestampOf_total by blast
    let ?sc = "sc\<lparr>entries := entries sc @ [e]\<rparr>"
    from Cons.prems have "fresh ?sc" by (simp add: fresh_def)
    from Cons.IH [OF this] e True Cons.prems show ?thesis
      by (simp add: visit_fresh)
  next
    case False
    then have e: "timestampOf decode yt l = None" by (rule timestampOf_None)
    let ?sc = "sc\<lparr>filteredLines := filteredLines sc @ [retained l]\<rparr>"
    from Cons.prems have "fresh ?sc" by (simp add: fresh_def)
    from Cons.IH [OF this] e False Cons.prems show ?thesis
      by (simp add: visit_fresh)
  qed
qed

lemma phaseDescription_eq:
  "phaseDescription decode content yt =
     Inr \<lparr>description =
            join [CHR 0x0A]
              (map retained (filter (\<lambda>l. \<not> isTimestampLine yt l) (split CHR 0x0A content))),
          timestamps =
            map (\<lambda>l. the (timestampOf decode yt l))
              (filter (isTimestampLine yt) (split CHR 0x0A content))\<rparr>"
  by (simp add: phaseDescription_def run_def forEach_fresh fresh_def)

lemma rewriteAnchor_shape:
  assumes "isUrlLine l"
  shows "\<exists>pre u post. l = pre @ ''<a href=\"'' @ u @ ''\"'' @ post \<and> u \<noteq> [] \<and> CHR ''\"'' \<notin> set u
     \<and> rewriteAnchor l =
         pre @ ''<a href=\"'' @ u @ ''\" target=\"_blank\" rel=\"noopener noreferrer\" class=\"link\"'' @ post"
proof -
  from assms obtain mt where mt: "scan urlPattern 0 l = Some mt"
    by (auto simp: isUrlLine_def)
  from scan_Some [OF mt] have
    l: "l = take (index mt) l @ matched mt @ drop (index mt + length (matched mt)) l"
    and mm: "matches urlPattern (matched mt) Map.empty (captures mt)" by simp_all
  from mm obtain u where u: "matched mt = ''<a href=\"'' @ u @ ''\"''" "u \<noteq> []"
      "CHR ''\"'' \<notin> set u" "captures mt = [1 \<mapsto> u]"
    unfolding url_matches by blast
  have "getSubstitution mt anchorTemplate =
      ''<a href=\"'' @ u @ ''\" target=\"_blank\" rel=\"noopener noreferrer\" class=\"link\"''"
    using u(4) by (simp add: anchorTemplate_def)
  then have "rewriteAnchor l = take (index mt) l @
      (''<a href=\"'' @ u @ ''\" target=\"_blank\" rel=\"noopener noreferrer\" class=\"link\"'')
      @ drop (index mt + length (matched mt)) l"
    using mt by (simp add: rewriteAnchor_def replace_def exec_literal literal_def)
  moreover from l u(1) have "l = take (index mt) l @ ''<a href=\"'' @ u @ ''\"''
      @ drop (index mt + length (matched mt)) l" by simp
  ultimately show ?thesis using u(2,3) by (metis append.assoc)
qed

lemma retained_no_newline:
  assumes "CHR 0x0A \<notin> set l"
  shows "CHR 0x0A \<notin> set (retained l)"
proof (cases "isUrlLine l")
  case False
  with assms show ?thesis by (simp add: retained_def)
next
  case True
  from rewriteAnchor_shape [OF True] obtain pre u post where
    a: "l = pre @ ''<a href=\"'' @ u @ ''\"'' @ post"
       "rewriteAnchor l =
         pre @ ''<a href=\"'' @ u @ ''\" target=\"_blank\" rel=\"noopener noreferrer\" class=\"link\"'' @ post"
    by blast
  from assms a(1) have "CHR 0x0A \<notin> set pre" "CHR 0x0A \<notin> set u" "CHR 0x0A \<notin> set post"
    by (metis Un_iff set_append)+
  with True a(2) show ?thesis by (simp add: retained_def)
qed

lemma split_description:
  assumes "filter (\<lambda>l. \<not> isTimestampLine yt l) (split CHR 0x0A content) \<noteq> []"
  shows "split CHR 0x0A (join [CHR 0x0A]
           (map retained (filter (\<lambda>l. \<not> isTimestampLine yt l) (split CHR 0x0A content))))
         = map retained (filter (\<lambda>l. \<not> isTimestampLine yt l) (split CHR 0x0A content))"
proof (rule split_join)
  show "map retained (filter (\<lambda>l. \<not> isTimestampLine yt l) (split CHR 0x0A content)) \<noteq> []"
    using assms by simp
  show "list_all (\<lambda>l. CHR 0x0A \<notin> set l)
     (map retained (filter (\<lambda>l. \<not> isTimestampLine yt l) (split CHR 0x0A content)))"
    by (auto simp: list_all_iff intro!: retained_no_newline dest: split_no_sep)
qed

lemma split_hd_prefix: "split sep s = y # ys \<Longrightarrow> \<exists>b. s = y @ b"
proof (induction s arbitrary: y ys)
  case Nil
  then show ?case by simp
next
  case (Cons x xs)
  obtain z zs where zs: "split sep xs = z # zs" by (cases "split sep xs") auto
  from Cons.IH [OF zs] obtain b where "xs = z @ b" by blast
  with Cons.prems zs show ?case by (cases "x = sep") auto
qed

lemma split_substring: "l \<in> set (split sep s) \<Longrightarrow> \<exists>a b. s = a @ l @ b"
proof (induction s arbitrary: l)
  case Nil
  then show ?case by simp
next
  case (Cons x xs)
  obtain y ys where ys: "split sep xs = y # ys" by (cases "split sep xs") auto
  have tail: "\<exists>a b. x # xs = a @ l @ b" if "l \<in> set (split sep xs)"
  proof -
    from Cons.IH [OF that] obtain a b where "xs = a @ l @ b" by blast
    then have "x # xs = (x # a) @ l @ b" by simp
    then show ?thesis by blast
  qed
  show ?case
  proof (cases "x = sep")
    case True
    with Cons.prems have "l = [] \<or> l \<in> set (split sep xs)" by simp
    then show ?thesis
    proof
      assume "l = []"
      then have "x # xs = [] @ l @ (x # xs)" by simp
      then show ?thesis by blast
    next
      assume "l \<in> set (split sep xs)"
      then show ?thesis by (rule tail)
    qed
  next
    case False
    with Cons.prems ys have "l = x # y \<or> l \<in> set ys" by simp
    then show ?thesis
    proof
      assume l: "l = x # y"
      from split_hd_prefix [OF ys] obtain b where "xs = y @ b" by blast
      with l have "x # xs = [] @ l @ b" by simp
      then show ?thesis by blast
    next
      assume "l \<in> set ys"
      with ys have "l \<in> set (split sep xs)" by simp
      then show ?thesis by (rule tail)
    qed
  qed
qed

lemma scan_substring:
  assumes "scan r i l \<noteq> None"
  shows "scan r j (a @ l @ b) \<noteq> None"
proof -
  from assms obtain mt where mt: "scan r i l = Some mt" by auto
  from scan_Some [OF mt] obtain pre post where
    "l = pre @ matched mt @ post" "matches r (matched mt) Map.empty (captures mt)"
    by blast
  then have "a @ l @ b = (a @ pre) @ matched mt @ (post @ b)" by simp
  then show ?thesis using scan_complete [OF \<open>matches r (matched mt) Map.empty (captures mt)\<close>]
    by metis
qed

lemma line_anchor_content:
  "l \<in> set (split CHR 0x0A content) \<Longrightarrow> isUrlLine l \<Longrightarrow> containsAnchor content"
  unfolding isUrlLine_def containsAnchor_def
  using split_substring scan_substring by metis

lemma invidious_is_url: "isTimestampLine False l \<Longrightarrow> isUrlLine l"
proof -
  assume "isTimestampLine False l"
  then obtain tm where tm: "scan invidiousPattern 0 l = Some tm"
    by (auto simp: isTimestampLine_def timestampMatch_def)
  from scan_Some [OF tm] obtain pre post where
    l: "l = pre @ matched tm @ post"
    and mm: "matches invidiousPattern (matched tm) Map.empty (captures tm)" by blast
  from invidious_matches [OF mm] obtain u rest where
    u: "matched tm = ''<a href=\"'' @ u @ ''\"'' @ rest" "u \<noteq> []" "CHR ''\"'' \<notin> set u"
    by blast
  then have "matches urlPattern (''<a href=\"'' @ u @ ''\"'') Map.empty [1 \<mapsto> u]"
    unfolding url_matches by blast
  from scan_complete [OF this, of 0 pre "rest @ post"] l u(1) show ?thesis
    by (simp add: isUrlLine_def)
qed

lemma join_map_id:
  "list_all (\<lambda>l. f l = l) ls \<Longrightarrow> join sep (map f ls) = join sep ls"
  by (induction sep ls rule: join.induct) auto

lemma retained_in_description:
  assumes "l \<in> set (split CHR 0x0A content)" and "\<not> isTimestampLine yt l"
  shows "retained l \<in> set (split CHR 0x0A (join [CHR 0x0A]
           (map retained (filter (\<lambda>l. \<not> isTimestampLine yt l) (split CHR 0x0A content)))))"
proof -
  let ?keep = "filter (\<lambda>l. \<not> isTimestampLine yt l) (split CHR 0x0A content)"
  from assms have "l \<in> set ?keep" by simp
  then have "?keep \<noteq> []" by (metis empty_iff list.set(1))
  from split_description [OF this] \<open>l \<in> set ?keep\<close> show ?thesis by simp
qed

lemma length_filter_not:
  "length (filter (\<lambda>l. \<not> P l) xs) = length xs - length (filter P xs)"
  using sum_length_filter_compl [of P xs] by simp

lemma digitValue_digit:
  "isDigit x \<Longrightarrow> digitValue 10 x = Some (nat (digit x)) \<and> 0 \<le> digit x"
  by (auto simp: isDigit_def digitValue_def digit_def)

lemma digit_not_space: "isDigit x \<Longrightarrow> \<not> isWhiteSpace x"
  by (auto simp: isDigit_def isWhiteSpace_def)

lemma mathInt_digits:
  "list_all isDigit d \<Longrightarrow> mathInt 10 acc d = foldl (\<lambda>a x. a * 10 + digit x) acc d"
  by (induction d arbitrary: acc) (auto simp: digitValue_digit)

lemma parseInt_digits:
  assumes "d \<noteq> []" "list_all isDigit d"
  shows "parseInt d = toNumber (decimal d)"
proof -
  from assms obtain x xs where d: "d = x # xs" "isDigit x" "list_all isDigit xs"
    by (cases d) auto
  have 1: "dropWhile isWhiteSpace d = d" using d digit_not_space by simp
  have 2: "take 1 d \<noteq> ''-''" "take 1 d \<noteq> ''+''" using d by (auto simp: isDigit_def)
  have 3: "take 2 d \<noteq> ''0x''" "take 2 d \<noteq> ''0X''"
    using d by (cases xs; auto simp: isDigit_def)+
  have 4: "digitValue 10 x \<noteq> None" using d digitValue_digit by simp
  have "parseInt d = (case d of [] \<Rightarrow> NaN | x # xs \<Rightarrow>
     (case digitValue 10 x of None \<Rightarrow> NaN | Some v \<Rightarrow> toNumber (mathInt 10 0 d)))"
    unfolding parseInt_def 1 Let_def using 2 3 by (simp only: if_False simp_thms)
  also have "\<dots> = toNumber (mathInt 10 0 d)"
    using 4 d(1) by (auto simp del: mathInt.simps)
  finally show ?thesis
    using mathInt_digits [OF assms(2), of 0] by (simp add: decimal_def)
qed

lemma decimal_nonneg: "list_all isDigit d \<Longrightarrow> 0 \<le> decimal d"
proof -
  have "list_all isDigit d \<Longrightarrow> 0 \<le> acc \<Longrightarrow> 0 \<le> foldl (\<lambda>a x. a * 10 + digit x) acc d"
    for acc :: int
  proof (induction d arbitrary: acc)
    case Nil
    then show ?case by simp
  next
    case (Cons x d)
    then have "0 \<le> digit x" using digitValue_digit [of x] by simp
    with Cons.prems have "0 \<le> acc * 10 + digit x" by simp
    with Cons show ?case by simp
  qed
  then show "list_all isDigit d \<Longrightarrow> 0 \<le> decimal d" by (simp add: decimal_def)
qed

lemma scale_ge: "0 < p \<Longrightarrow> p \<le> scale a p"
proof (induction a p rule: scale.induct)
  case (1 a p)
  show ?case
  proof (cases "a div p < 2 ^ 53")
    case True
    then show ?thesis by (subst scale.simps) simp
  next
    case False
    with "1.IH" "1.prems" have "p * 2 \<le> scale a (p * 2)" by simp
    with False "1.prems" show ?thesis by (subst scale.simps) simp
  qed
qed

lemma toNumber_small: "\<bar>n\<bar> < 2 ^ 53 \<Longrightarrow> toNumber n = Fin n"
  by (simp add: toNumber_def)

lemma toNumber_nonneg: "0 \<le> n \<Longrightarrow> notNegative (toNumber n)"
proof -
  assume n: "0 \<le> n"
  have p: "0 < scale \<bar>n\<bar> 2" using scale_ge [of 2 "\<bar>n\<bar>"] by simp
  then have "0 \<le> \<bar>n\<bar> div scale \<bar>n\<bar> 2" using pos_imp_zdiv_nonneg_iff by simp
  with p n show ?thesis
    by (auto simp: toNumber_def Let_def)
qed

lemma split_colon3:
  assumes "CHR '':'' \<notin> set a" "CHR '':'' \<notin> set b" "CHR '':'' \<notin> set c"
  shows "split CHR '':'' (a @ '':'' @ b @ '':'' @ c) = [a, b, c]"
    and "split CHR '':'' (a @ '':'' @ b) = [a, b]"
    and "split CHR '':'' a = [a]"
  using assms by (simp_all add: split_append_no_sep split_no_sep_single)

lemma scale_props:
  "0 < p \<Longrightarrow>
     a div scale a p < 2 ^ 53
     \<and> (scale a p = p \<or> 2 ^ 53 \<le> a div (scale a p div 2))
     \<and> (\<exists>k. scale a p = p * 2 ^ k)"
proof (induction a p rule: scale.induct)
  case (1 a p)
  show ?case
  proof (cases "a div p < 2 ^ 53")
    case True
    then have "scale a p = p" by (subst scale.simps) simp
    with True show ?thesis by (auto intro: exI [of _ 0])
  next
    case False
    then have eq: "scale a p = scale a (p * 2)" by (subst scale.simps) simp
    from "1.prems" have "0 < p * 2" by simp
    from "1.IH" [OF False this] have
      ih: "a div scale a (p * 2) < 2 ^ 53"
          "scale a (p * 2) = p * 2 \<or> 2 ^ 53 \<le> a div (scale a (p * 2) div 2)"
      and "\<exists>k. scale a (p * 2) = p * 2 * 2 ^ k" by blast+
    then obtain k where k: "scale a (p * 2) = p * 2 * 2 ^ k" by blast
    have "scale a (p * 2) = p * 2 ^ Suc k" unfolding k by simp
    then have "\<exists>k. scale a p = p * 2 ^ k" unfolding eq by blast
    moreover have "2 ^ 53 \<le> a div (scale a (p * 2) div 2)"
    proof (rule disjE [OF ih(2)])
      assume "scale a (p * 2) = p * 2"
      then have "scale a (p * 2) div 2 = p" by simp
      with False show ?thesis by simp
    qed
    ultimately show ?thesis using ih(1) unfolding eq by blast
  qed
qed

lemma div_mult_ge:
  fixes P M n :: int
  assumes "P dvd M" and "0 < P" and "M \<le> n"
  shows "M \<le> (n div P) * P"
proof -
  from assms(1) have c: "M = (M div P) * P" by simp
  from assms(2,3) have "M div P \<le> n div P" by (intro zdiv_mono1)
  with assms(2) have "(M div P) * P \<le> (n div P) * P" by (intro mult_right_mono) simp_all
  with c show ?thesis by simp
qed

lemma toNumber_overflow:
  assumes "2 ^ 1024 \<le> n"
  shows "toNumber n = PosInf"
proof -
  let ?P = "scale \<bar>n\<bar> 2"
  from assms have n: "\<bar>n\<bar> = n" "\<not> n < 0" "\<not> \<bar>n\<bar> < 2 ^ 53" by simp_all
  have "(0::int) < 2" by simp
  from scale_props [OF this, of n] have
    q: "n div scale n 2 < 2 ^ 53"
    and mn: "scale n 2 = 2 \<or> 2 ^ 53 \<le> n div (scale n 2 div 2)"
    and "\<exists>k. scale n 2 = 2 * 2 ^ k" by blast+
  then obtain k where k: "scale n 2 = 2 * 2 ^ k" by blast
  have P: "scale n 2 = 2 ^ Suc k" unfolding k by simp
  have Ppos: "0 < scale n 2" unfolding P by simp
  have big: "(2::int) ^ 1024 \<le> (n div scale n 2) * scale n 2"
  proof (cases "Suc k \<le> 1024")
    case True
    then have "(2::int) ^ Suc k dvd 2 ^ 1024" by (rule le_imp_power_dvd)
    then show ?thesis unfolding P [symmetric] using Ppos assms by (rule div_mult_ge)
  next
    case False
    then have "(2::int) ^ 1024 \<le> 2 ^ Suc k" by (intro power_increasing) simp_all
    then have le: "(2::int) ^ 1024 \<le> scale n 2" unfolding P .
    have "1 \<le> n div scale n 2"
    proof -
      from False have "0 < k" by auto
      then have "(1::int) < 2 ^ k" by (intro one_less_power) simp_all
      then have "scale n 2 \<noteq> 2" unfolding k by simp
      with mn have "2 ^ 53 \<le> n div (scale n 2 div 2)" by simp
      moreover have "scale n 2 = (scale n 2 div 2) * 2" unfolding P by simp
      then have "n div scale n 2 = (n div (scale n 2 div 2)) div 2"
        by (metis zdiv_zmult2_eq zero_le_numeral)
      ultimately show ?thesis by simp
    qed
    with Ppos have "scale n 2 \<le> (n div scale n 2) * scale n 2" by simp
    with le show ?thesis by (rule order_trans)
  qed
  have "2 ^ 1024 \<le> (if scale n 2 < 2 * (n mod scale n 2)
            \<or> (2 * (n mod scale n 2) = scale n 2 \<and> odd (n div scale n 2))
          then n div scale n 2 + 1 else n div scale n 2) * scale n 2"
    using big Ppos by (auto simp: distrib_right)
  with n show ?thesis by (simp add: toNumber_def Let_def)
qed

lemma digit_not_colon: "isDigit x \<Longrightarrow> x \<noteq> CHR '':''"
  by (auto simp: isDigit_def)

lemma digits_time:
  assumes "d \<noteq> []" "list_all isDigit d"
  shows "convertToSeconds d = toNumber (decimal d)"
proof -
  have "CHR '':'' \<notin> set d"
    using assms(2) digit_not_colon unfolding list_all_iff by blast
  then have sp: "split CHR '':'' d = [d]" by (rule split_no_sep_single)
  have "convertToSeconds d = parseInt d"
    unfolding convertToSeconds_def sp by (simp add: Let_def)
  also have "\<dots> = toNumber (decimal d)" using assms by (rule parseInt_digits)
  finally show ?thesis .
qed
lemma timestampOf_time:
  assumes "timestampOf decode yt l = Some e"
  shows "\<exists>d. d \<noteq> [] \<and> list_all isDigit d \<and> time e = toNumber (decimal d)"
proof -
  from assms obtain tm where tm: "timestampMatch yt l = Some tm"
    by (auto simp: timestampOf_def split: option.splits)
  from timestampMatch_captures [OF tm] obtain t p ti where
    c: "captures tm (timeField yt) = Some t" "captures tm (titleField yt) = Some ti"
       "t \<noteq> []" "list_all isDigit t" by blast
  with assms tm have "time e = convertToSeconds t" by (auto simp: timestampOf_def)
  also have "\<dots> = toNumber (decimal t)" using c(3,4) by (rule digits_time)
  finally show ?thesis using c(3,4) by blast
qed

lemma decimal_nines: "decimal (replicate n CHR ''9'') = 10 ^ n - 1"
proof -
  have "foldl (\<lambda>a x. a * 10 + digit x) acc (replicate n CHR ''9'') = (acc + 1) * 10 ^ n - 1"
    for acc
    by (induction n arbitrary: acc) (simp_all add: digit_def algebra_simps)
  then show ?thesis by (simp add: decimal_def)
qed

lemma one_le_two_power: "(1::int) \<le> 2 ^ j"
  by (rule one_le_power) simp

lemma scale_upper:
  "0 < p \<Longrightarrow> a div (p * 2 ^ j) < 2 ^ 53 \<Longrightarrow> scale a p \<le> p * 2 ^ j"
proof (induction j arbitrary: p)
  case 0
  then show ?case by (subst scale.simps) simp
next
  case (Suc j)
  show ?case
  proof (cases "a div p < 2 ^ 53")
    case True
    then have "scale a p = p" by (subst scale.simps) simp
    moreover have "p * 1 \<le> p * 2 ^ Suc j"
      using Suc.prems(1) one_le_two_power [of "Suc j"] by (intro mult_left_mono) simp_all
    ultimately show ?thesis by simp
  next
    case False
    then have "scale a p = scale a (p * 2)" by (subst scale.simps) simp
    moreover from Suc.prems have "scale a (p * 2) \<le> (p * 2) * 2 ^ j"
      by (intro Suc.IH) (simp_all add: mult.assoc)
    ultimately show ?thesis by (simp add: mult.assoc)
  qed
qed

lemma scale_lower:
  "0 < p \<Longrightarrow> 0 \<le> a \<Longrightarrow> 2 ^ 53 \<le> a div (p * 2 ^ j) \<Longrightarrow> p * 2 ^ j * 2 \<le> scale a p"
proof (induction j arbitrary: p)
  case 0
  then have "scale a p = scale a (p * 2)" by (subst scale.simps) simp
  moreover from 0 have "p * 2 \<le> scale a (p * 2)" by (intro scale_ge) simp
  ultimately show ?case by simp
next
  case (Suc j)
  have "p * 1 \<le> p * 2 ^ Suc j"
    using Suc.prems(1) one_le_two_power [of "Suc j"] by (intro mult_left_mono) simp_all
  then have "a div (p * 2 ^ Suc j) \<le> a div p"
    using Suc.prems(1,2) by (intro zdiv_mono2) simp_all
  with Suc.prems(3) have "\<not> a div p < 2 ^ 53" by simp
  then have "scale a p = scale a (p * 2)" by (subst scale.simps) simp
  moreover from Suc.prems have "(p * 2) * 2 ^ j * 2 \<le> scale a (p * 2)"
    by (intro Suc.IH) (simp_all add: mult.assoc)
  ultimately show ?case by (simp add: mult.assoc)
qed

lemma round_971:
  fixes n q r :: int
  assumes n: "n = q * 2 ^ 971 + r" and r: "0 \<le> r" "r < 2 ^ 971" and q: "0 \<le> q" "q < 2 ^ 53"
  shows "n < 2 ^ 1024 - 2 ^ 970 \<Longrightarrow>
           (if 2 ^ 971 < 2 * r \<or> (2 * r = 2 ^ 971 \<and> odd q) then q + 1 else q) * 2 ^ 971 < 2 ^ 1024"
    and "2 ^ 1024 - 2 ^ 970 \<le> n \<Longrightarrow>
           2 ^ 1024 \<le> (if 2 ^ 971 < 2 * r \<or> (2 * r = 2 ^ 971 \<and> odd q) then q + 1 else q) * 2 ^ 971"
proof -
  assume "n < 2 ^ 1024 - 2 ^ 970"
  with n r q show
    "(if 2 ^ 971 < 2 * r \<or> (2 * r = 2 ^ 971 \<and> odd q) then q + 1 else q) * 2 ^ 971 < 2 ^ 1024"
    by (simp split: if_splits)
next
  assume big: "2 ^ 1024 - 2 ^ 970 \<le> n"
  with n r q have "q = 2 ^ 53 - 1" by simp
  then have o: "odd q" by simp
  from big n \<open>q = 2 ^ 53 - 1\<close> have "2 ^ 971 \<le> 2 * r" by simp
  with o have "2 ^ 971 < 2 * r \<or> (2 * r = 2 ^ 971 \<and> odd q)" by linarith
  with \<open>q = 2 ^ 53 - 1\<close> show
    "2 ^ 1024 \<le> (if 2 ^ 971 < 2 * r \<or> (2 * r = 2 ^ 971 \<and> odd q) then q + 1 else q) * 2 ^ 971"
    by simp
qed

lemma toNumber_big:
  assumes "2 ^ 53 \<le> n"
  shows "toNumber n =
    (if 2 ^ 1024 \<le>
          (if scale n 2 < 2 * (n mod scale n 2)
              \<or> (2 * (n mod scale n 2) = scale n 2 \<and> odd (n div scale n 2))
           then n div scale n 2 + 1 else n div scale n 2) * scale n 2
     then PosInf
     else Fin ((if scale n 2 < 2 * (n mod scale n 2)
                   \<or> (2 * (n mod scale n 2) = scale n 2 \<and> odd (n div scale n 2))
                then n div scale n 2 + 1 else n div scale n 2) * scale n 2))"
proof -
  from assms have "\<bar>n\<bar> = n" "\<not> n < 0" "\<not> \<bar>n\<bar> < 2 ^ 53" by simp_all
  then show ?thesis by (simp add: toNumber_def Let_def)
qed

lemma scale_is_971:
  assumes "2 ^ 1023 \<le> n" and "n < 2 ^ 1024"
  shows "scale n 2 = 2 ^ 971"
proof -
  have n0: "0 \<le> n" using assms(1) by simp
  have "n div (2 * 2 ^ 970) < 2 ^ 53" using assms(2) by simp
  then have "scale n 2 \<le> 2 * 2 ^ 970" by (intro scale_upper) simp_all
  moreover have "2 ^ 53 \<le> n div (2 * 2 ^ 969)" using assms(1) by simp
  then have "2 * 2 ^ 969 * 2 \<le> scale n 2" using n0 by (intro scale_lower) simp_all
  ultimately show ?thesis by simp
qed

lemma toNumber_infinite:
  assumes "2 ^ 1024 - 2 ^ 970 \<le> n"
  shows "toNumber n = PosInf"
proof (cases "2 ^ 1024 \<le> n")
  case True
  then show ?thesis by (rule toNumber_overflow)
next
  case False
  with assms have P: "scale n 2 = 2 ^ 971" by (intro scale_is_971) simp_all
  have n: "n = (n div 2 ^ 971) * 2 ^ 971 + n mod 2 ^ 971" by simp
  have r: "0 \<le> n mod 2 ^ 971" "n mod 2 ^ 971 < 2 ^ 971" by simp_all
  have q: "0 \<le> n div 2 ^ 971" "n div 2 ^ 971 < 2 ^ 53" using assms False by simp_all
  from assms have "2 ^ 53 \<le> n" by simp
  then show ?thesis
    unfolding toNumber_big [OF \<open>2 ^ 53 \<le> n\<close>] P
    using round_971(2) [OF n r q assms] by (simp only: if_True)
qed

lemma toNumber_finite:
  assumes "0 \<le> n" and "n < 2 ^ 1024 - 2 ^ 970"
  shows "\<exists>k. toNumber n = Fin k \<and> 0 \<le> k"
proof (cases "n < 2 ^ 53")
  case True
  with assms(1) show ?thesis by (simp add: toNumber_small)
next
  case False
  then have big: "2 ^ 53 \<le> n" by simp
  let ?P = "scale n 2"
  let ?q = "n div ?P"
  let ?r = "n mod ?P"
  let ?q' = "if ?P < 2 * ?r \<or> (2 * ?r = ?P \<and> odd ?q) then ?q + 1 else ?q"
  have Ppos: "0 < ?P" using scale_ge [of 2 n] by simp
  have q: "0 \<le> ?q" "?q < 2 ^ 53"
    using Ppos assms(1) scale_props [of 2 n] by (simp_all add: pos_imp_zdiv_nonneg_iff)
  have q'0: "0 \<le> ?q'" using q(1) by simp
  have lt: "?q' * ?P < 2 ^ 1024"
  proof (cases "n < 2 ^ 1023")
    case True
    then have "n div (2 * 2 ^ 969) < 2 ^ 53" by simp
    then have "?P \<le> 2 * 2 ^ 969" by (intro scale_upper) simp_all
    moreover have "?q' \<le> 2 ^ 53" using q(2) by simp
    ultimately have "?q' * ?P \<le> 2 ^ 53 * (2 * 2 ^ 969)"
      using Ppos q'0 by (intro mult_mono) simp_all
    then show ?thesis by simp
  next
    case False
    with assms(2) have P: "?P = 2 ^ 971" by (intro scale_is_971) simp_all
    have n: "n = (n div 2 ^ 971) * 2 ^ 971 + n mod 2 ^ 971" by simp
    have r: "0 \<le> n mod 2 ^ 971" "n mod 2 ^ 971 < 2 ^ 971" by simp_all
    from round_971(1) [OF n r q [unfolded P] assms(2)] show ?thesis unfolding P .
  qed
  have "0 \<le> ?q' * ?P" using q'0 Ppos by simp
  with lt show ?thesis unfolding toNumber_big [OF big] by simp
qed


lemma timestampOf_digits:
  assumes "isTimestampLine yt l"
  shows "\<exists>e d. timestampOf decode yt l = Some e \<and> timeDigits yt l = Some d \<and> d \<noteq> []
           \<and> list_all isDigit d \<and> time e = toNumber (decimal d)"
proof -
  from assms obtain tm where tm: "timestampMatch yt l = Some tm"
    by (auto simp: isTimestampLine_def)
  from timestampMatch_captures [OF tm] obtain t p ti where
    c: "captures tm (timeField yt) = Some t" "captures tm (titleField yt) = Some ti"
       "t \<noteq> []" "list_all isDigit t" by blast
  from tm c(1,2) obtain e where e: "timestampOf decode yt l = Some e"
      "time e = convertToSeconds t"
    by (simp add: timestampOf_def)
  from e(2) digits_time [OF c(3,4)] have "time e = toNumber (decimal t)" by simp
  moreover from tm c(1) have "timeDigits yt l = Some t" by (simp add: timeDigits_def)
  ultimately show ?thesis using e(1) c(3,4) by blast
qed

















lemma empty_line_plain: "\<not> isTimestampLine yt []" "\<not> isUrlLine []"
proof -
  have "\<not> isTimestampLine True []" by code_simp
  moreover have "\<not> isTimestampLine False []" by code_simp
  ultimately show "\<not> isTimestampLine yt []" by (cases yt) simp_all
  show "\<not> isUrlLine []" by code_simp
qed

lemma rewriteAnchor_is_url:
  assumes "isUrlLine l"
  shows "isUrlLine (rewriteAnchor l)" and "length l < length (rewriteAnchor l)"
proof -
  from rewriteAnchor_shape [OF assms] obtain pre u post where
    a: "l = pre @ ''<a href=\"'' @ u @ ''\"'' @ post" "u \<noteq> []" "CHR ''\"'' \<notin> set u"
       "rewriteAnchor l = pre @ ''<a href=\"'' @ u @
          ''\" target=\"_blank\" rel=\"noopener noreferrer\" class=\"link\"'' @ post"
    by blast
  from a(2,3) have "matches urlPattern (''<a href=\"'' @ u @ ''\"'') Map.empty [1 \<mapsto> u]"
    unfolding url_matches by blast
  from scan_complete [OF this, of 0 pre
      "'' target=\"_blank\" rel=\"noopener noreferrer\" class=\"link\"'' @ post"] a(4)
  show "isUrlLine (rewriteAnchor l)" by (simp add: isUrlLine_def)
  have "length l = length pre + length u + length post + 10" by (subst a(1)) simp
  moreover have "length (rewriteAnchor l) = length pre + length u + length post + 65"
    by (subst a(4)) simp
  ultimately show "length l < length (rewriteAnchor l)" by simp
qed

lemma second_pass_same:
  assumes "list_all (\<lambda>l. CHR 0x0A \<notin> set l) ls" and "ls \<noteq> []"
    and "list_all (\<lambda>l. \<not> isTimestampLine yt l \<and> \<not> isUrlLine l) ls"
  shows "phaseDescription decode (join [CHR 0x0A] ls) yt =
           Inr \<lparr>description = join [CHR 0x0A] ls, timestamps = []\<rparr>"
proof -
  from assms(1,2) have s: "split CHR 0x0A (join [CHR 0x0A] ls) = ls" by (intro split_join)
  from assms(3) have f1: "filter (\<lambda>l. \<not> isTimestampLine yt l) ls = ls"
    and f2: "filter (isTimestampLine yt) ls = []"
    by (simp_all add: list_all_iff)
  from assms(3) have "list_all (\<lambda>l. retained l = l) ls"
    by (simp add: list_all_iff retained_def)
  then have "join [CHR 0x0A] (map retained ls) = join [CHR 0x0A] ls" by (rule join_map_id)
  with f1 f2 show ?thesis unfolding phaseDescription_eq s by simp
qed


lemma map_fixed: "map f xs = xs \<Longrightarrow> x \<in> set xs \<Longrightarrow> f x = x"
  by (induction xs) auto

section \<open>The claims\<close>

text \<open>
  C1. For every input and either mode, the result of \<open>phaseDescription\<close> is this: the
  description is the lines of the input, without the timestamp lines, the URL lines among
  the others rewritten and every other line as it was, joined by line feeds; the
  timestamps are the entries of the timestamp lines, one for each, in the order of the
  lines.
\<close>

theorem phaseDescription_lines:
  "\<exists>ts. phaseDescription decode content usingYoutubeJs =
          Inr \<lparr>description =
                 join [CHR 0x0A]
                   (map retained
                      (filter (\<lambda>l. \<not> isTimestampLine usingYoutubeJs l)
                         (split CHR 0x0A content))),
               timestamps = ts\<rparr>
      \<and> list_all2 (\<lambda>l e. timestampOf decode usingYoutubeJs l = Some e)
            (filter (isTimestampLine usingYoutubeJs) (split CHR 0x0A content)) ts"
proof -
  let ?ls = "filter (isTimestampLine usingYoutubeJs) (split CHR 0x0A content)"
  have "list_all2 (\<lambda>l e. timestampOf decode usingYoutubeJs l = Some e) ?ls
          (map (\<lambda>l. the (timestampOf decode usingYoutubeJs l)) ?ls)"
    unfolding list.rel_map
    by (rule list.rel_refl_strong)
       (use timestampOf_total [of usingYoutubeJs _ decode] in auto)
  then show ?thesis
    unfolding phaseDescription_eq by blast
qed

theorem phaseDescription_lines_witness:
  "\<exists>ts. phaseDescription id
          (''hello'' @ [CHR 0x0A] @
           ''<a href=\"/w?t=65\" data-onclick=\"jump_to_time\" data-jump-time=\"65\">1:05</a> Intro''
           @ [CHR 0x0A] @ ''<a href=\"http://x/y\">link</a>'') False =
          Inr \<lparr>description =
                 ''hello'' @ [CHR 0x0A] @
                 ''<a href=\"http://x/y\" target=\"_blank\" rel=\"noopener noreferrer\" class=\"link\">link</a>'',
               timestamps = ts\<rparr>
      \<and> ts = [\<lparr>title = ''Intro'', time = Fin 65, timePretty = Some ''1:05''\<rparr>]"
proof -
  let ?c = "''hello'' @ [CHR 0x0A] @
           ''<a href=\"/w?t=65\" data-onclick=\"jump_to_time\" data-jump-time=\"65\">1:05</a> Intro''
           @ [CHR 0x0A] @ ''<a href=\"http://x/y\">link</a>''"
  from phaseDescription_lines [of id ?c False] obtain ts where
    a: "phaseDescription id ?c False =
          Inr \<lparr>description =
                 join [CHR 0x0A]
                   (map retained (filter (\<lambda>l. \<not> isTimestampLine False l) (split CHR 0x0A ?c))),
               timestamps = ts\<rparr>" by blast
  have b: "phaseDescription id ?c False = Inr \<lparr>description =
                 ''hello'' @ [CHR 0x0A] @
                 ''<a href=\"http://x/y\" target=\"_blank\" rel=\"noopener noreferrer\" class=\"link\">link</a>'',
               timestamps = [\<lparr>title = ''Intro'', time = Fin 65, timePretty = Some ''1:05''\<rparr>]\<rparr>"
    by code_simp
  from a b show ?thesis by simp
qed

text \<open>
  C7. \<open>phaseDescription\<close> returns a result for every input and either mode: the
  TypeError of \<open>convertToSeconds\<close> on an undefined capture cannot happen, since the time
  capture takes part in every match of either timestamp pattern. No line is lost: a line
  that is not a timestamp line is in the description, as it was or rewritten.
\<close>

theorem phaseDescription_total:
  "\<exists>pd. phaseDescription decode content usingYoutubeJs = Inr pd
      \<and> (\<forall>l \<in> set (split CHR 0x0A content).
            \<not> isTimestampLine usingYoutubeJs l \<longrightarrow>
            retained l \<in> set (split CHR 0x0A (description pd)))"
  unfolding phaseDescription_eq using retained_in_description by auto

theorem phaseDescription_total_witness:
  "\<exists>pd. phaseDescription id (''<a href=\"/x?a=1&b=2\">x</a>'' @ [CHR 0x0A] @ ''plain'') False = Inr pd
     \<and> ''<a href=\"/x?a=1&b=2\" target=\"_blank\" rel=\"noopener noreferrer\" class=\"link\">x</a>''
           \<in> set (split CHR 0x0A (description pd))
     \<and> ''plain'' \<in> set (split CHR 0x0A (description pd))"
proof -
  let ?c = "''<a href=\"/x?a=1&b=2\">x</a>'' @ [CHR 0x0A] @ ''plain''"
  from phaseDescription_total [of id ?c False] obtain pd where
    a: "phaseDescription id ?c False = Inr pd"
    and b: "\<forall>l \<in> set (split CHR 0x0A ?c). \<not> isTimestampLine False l \<longrightarrow>
            retained l \<in> set (split CHR 0x0A (description pd))" by blast
  have s: "split CHR 0x0A ?c = [''<a href=\"/x?a=1&b=2\">x</a>'', ''plain'']" by code_simp
  have t1: "\<not> isTimestampLine False ''<a href=\"/x?a=1&b=2\">x</a>''" by code_simp
  have t2: "\<not> isTimestampLine False ''plain''" by code_simp
  have r1: "retained ''<a href=\"/x?a=1&b=2\">x</a>'' =
     ''<a href=\"/x?a=1&b=2\" target=\"_blank\" rel=\"noopener noreferrer\" class=\"link\">x</a>''"
    by code_simp
  have r2: "retained ''plain'' = ''plain''" by code_simp
  from b s t1 t2 r1 r2 a show ?thesis by auto
qed

text \<open>
  C3. For every input that contains no anchor tag, the description is the input and
  there is no timestamp: in the legacy mode always, and in the alternate mode when no
  line is a timestamp line, that is, when the alternate timestamp pattern matches no
  line once \<open></span>\<close> is appended to it, as the code appends it before matching
  (the alternate pattern does not ask for an anchor tag).
\<close>

theorem no_anchor_unchanged:
  assumes "\<not> containsAnchor content"
    and "usingYoutubeJs \<longrightarrow> list_all (\<lambda>l. \<not> isTimestampLine True l) (split CHR 0x0A content)"
  shows "phaseDescription decode content usingYoutubeJs =
           Inr \<lparr>description = content, timestamps = []\<rparr>"
proof -
  let ?ls = "split CHR 0x0A content"
  have url: "\<not> isUrlLine l" if "l \<in> set ?ls" for l
    using assms(1) line_anchor_content that by blast
  have ts: "\<not> isTimestampLine usingYoutubeJs l" if "l \<in> set ?ls" for l
  proof (cases usingYoutubeJs)
    case True
    with assms(2) that show ?thesis by (simp add: list_all_iff)
  next
    case False
    with url [OF that] invidious_is_url [of l] show ?thesis by auto
  qed
  from ts have f1: "filter (\<lambda>l. \<not> isTimestampLine usingYoutubeJs l) ?ls = ?ls"
    and f2: "filter (isTimestampLine usingYoutubeJs) ?ls = []" by (simp_all)
  from url have "list_all (\<lambda>l. retained l = l) ?ls"
    by (simp add: list_all_iff retained_def)
  then have "join [CHR 0x0A] (map retained ?ls) = content"
    by (simp add: join_map_id join_split)
  with f1 f2 show ?thesis by (simp add: phaseDescription_eq)
qed

theorem no_anchor_unchanged_witness:
  "phaseDescription id (''see &t=5s'' @ [CHR 0x0A] @ ''<b>bold</b> text'') False =
     Inr \<lparr>description = ''see &t=5s'' @ [CHR 0x0A] @ ''<b>bold</b> text'', timestamps = []\<rparr>
   \<and> phaseDescription id (''see &t=5s'' @ [CHR 0x0A] @ ''<b>bold</b> text'') True =
     Inr \<lparr>description = ''see &t=5s'' @ [CHR 0x0A] @ ''<b>bold</b> text'', timestamps = []\<rparr>"
proof -
  let ?c = "''see &t=5s'' @ [CHR 0x0A] @ ''<b>bold</b> text''"
  have a: "\<not> containsAnchor ?c" by code_simp
  have b: "list_all (\<lambda>l. \<not> isTimestampLine True l) (split CHR 0x0A ?c)" by code_simp
  from no_anchor_unchanged [of ?c False id] a
       no_anchor_unchanged [of ?c True id] a b
  show ?thesis by simp
qed

theorem no_anchor_counterexample:
  "\<not> containsAnchor ''&t=5s<span>0:05</span>>Intro''
   \<and> phaseDescription id ''&t=5s<span>0:05</span>>Intro'' True =
       Inr \<lparr>description = [],
            timestamps = [\<lparr>title = ''Intro'', time = Fin 5, timePretty = Some ''0:05''\<rparr>]\<rparr>"
  by code_simp

text \<open>
  C5. A line of the input on which the anchor pattern matches and the timestamp pattern
  does not is kept in the description with its first anchor rewritten: the text
  \<open>target="_blank" rel="noopener noreferrer" class="link"\<close> follows the \<open>href\<close>
  attribute, whose value is the original one, and the rest of the line is as it was.
\<close>

theorem anchor_rewritten:
  assumes "l \<in> set (split CHR 0x0A content)"
    and "isUrlLine l"
    and "\<not> isTimestampLine usingYoutubeJs l"
  shows "\<exists>pd pre u post.
           phaseDescription decode content usingYoutubeJs = Inr pd
           \<and> l = pre @ ''<a href=\"'' @ u @ ''\"'' @ post \<and> u \<noteq> [] \<and> CHR ''\"'' \<notin> set u
           \<and> pre @ ''<a href=\"'' @ u @
               ''\" target=\"_blank\" rel=\"noopener noreferrer\" class=\"link\"'' @ post
               \<in> set (split CHR 0x0A (description pd))"
proof -
  from retained_in_description [OF assms(1,3)] obtain pd where
    pd: "phaseDescription decode content usingYoutubeJs = Inr pd"
    and r: "retained l \<in> set (split CHR 0x0A (description pd))"
    unfolding phaseDescription_eq by simp
  from rewriteAnchor_shape [OF assms(2)] obtain pre u post where
    s: "l = pre @ ''<a href=\"'' @ u @ ''\"'' @ post" "u \<noteq> []" "CHR ''\"'' \<notin> set u"
       "rewriteAnchor l = pre @ ''<a href=\"'' @ u @
          ''\" target=\"_blank\" rel=\"noopener noreferrer\" class=\"link\"'' @ post"
    by blast
  from r s(4) assms(2) have "pre @ ''<a href=\"'' @ u @
          ''\" target=\"_blank\" rel=\"noopener noreferrer\" class=\"link\"'' @ post
      \<in> set (split CHR 0x0A (description pd))" by (simp add: retained_def)
  with pd s(1,2,3) show ?thesis by blast
qed

theorem anchor_rewritten_witness:
  "''<a href=\"http://x/y\">link</a>'' \<in> set (split CHR 0x0A ''<a href=\"http://x/y\">link</a>'')
   \<and> isUrlLine ''<a href=\"http://x/y\">link</a>''
   \<and> \<not> isTimestampLine False ''<a href=\"http://x/y\">link</a>''
   \<and> (\<exists>pd pre u post.
           phaseDescription id ''<a href=\"http://x/y\">link</a>'' False = Inr pd
           \<and> ''<a href=\"http://x/y\">link</a>'' = pre @ ''<a href=\"'' @ u @ ''\"'' @ post
           \<and> u \<noteq> [] \<and> CHR ''\"'' \<notin> set u
           \<and> pre @ ''<a href=\"'' @ u @
               ''\" target=\"_blank\" rel=\"noopener noreferrer\" class=\"link\"'' @ post
               \<in> set (split CHR 0x0A (description pd)))"
proof -
  let ?l = "''<a href=\"http://x/y\">link</a>''"
  have h1: "?l \<in> set (split CHR 0x0A ?l)" by code_simp
  have h2: "isUrlLine ?l" by code_simp
  have h3: "\<not> isTimestampLine False ?l" by code_simp
  from anchor_rewritten [OF h1 h2 h3, of id] h1 h2 h3 show ?thesis by blast
qed

text \<open>
  C6. The timestamps are as many as the timestamp lines. When at least one line of the
  input is not a timestamp line, the description has as many lines as the input has,
  less the timestamps. When every line is a timestamp line the description is the empty
  string, which splits into one line and not into none.
\<close>

theorem line_count:
  "\<exists>pd. phaseDescription decode content usingYoutubeJs = Inr pd
     \<and> length (timestamps pd) =
         length (filter (isTimestampLine usingYoutubeJs) (split CHR 0x0A content))
     \<and> (if list_all (isTimestampLine usingYoutubeJs) (split CHR 0x0A content)
         then description pd = []
         else length (split CHR 0x0A (description pd)) =
                length (split CHR 0x0A content) - length (timestamps pd))"
proof -
  let ?ls = "split CHR 0x0A content"
  let ?keep = "filter (\<lambda>l. \<not> isTimestampLine usingYoutubeJs l) ?ls"
  show ?thesis
  proof (cases "list_all (isTimestampLine usingYoutubeJs) ?ls")
    case True
    then have "?keep = []" by (simp add: list_all_iff)
    with True show ?thesis by (simp add: phaseDescription_eq)
  next
    case False
    then have "?keep \<noteq> []" by (simp add: list_all_iff filter_empty_conv)
    from split_description [OF this] False show ?thesis
      by (simp add: phaseDescription_eq length_filter_not)
  qed
qed

theorem line_count_witness:
  "\<exists>pd. phaseDescription id
          (''hello'' @ [CHR 0x0A] @
           ''<a href=\"/w\" data-onclick=\"jump_to_time\" data-jump-time=\"5\">0:05</a> Intro''
           @ [CHR 0x0A] @ ''bye'') False = Inr pd
     \<and> length (timestamps pd) = 1
     \<and> length (split CHR 0x0A (description pd)) = 2"
proof -
  let ?c = "''hello'' @ [CHR 0x0A] @
           ''<a href=\"/w\" data-onclick=\"jump_to_time\" data-jump-time=\"5\">0:05</a> Intro''
           @ [CHR 0x0A] @ ''bye''"
  have a: "split CHR 0x0A ?c = [''hello'',
     ''<a href=\"/w\" data-onclick=\"jump_to_time\" data-jump-time=\"5\">0:05</a> Intro'', ''bye'']"
    by code_simp
  have b: "\<not> isTimestampLine False ''hello''" by code_simp
  have c: "isTimestampLine False
     ''<a href=\"/w\" data-onclick=\"jump_to_time\" data-jump-time=\"5\">0:05</a> Intro''"
    by code_simp
  have d: "\<not> isTimestampLine False ''bye''" by code_simp
  from line_count [of id ?c False] obtain pd where
    "phaseDescription id ?c False = Inr pd"
    "length (timestamps pd) = 1"
    "length (split CHR 0x0A (description pd)) = 3 - length (timestamps pd)"
    unfolding a using b c d by auto
  then have "phaseDescription id ?c False = Inr pd \<and> length (timestamps pd) = 1
     \<and> length (split CHR 0x0A (description pd)) = 2" by simp
  then show ?thesis by (rule exI)
qed

theorem line_count_counterexample:
  "phaseDescription id
     ''<a href=\"/w\" data-onclick=\"jump_to_time\" data-jump-time=\"5\">0:05</a> Intro'' False
     = Inr \<lparr>description = [],
            timestamps = [\<lparr>title = ''Intro'', time = Fin 5, timePretty = Some ''0:05''\<rparr>]\<rparr>
   \<and> length (split CHR 0x0A []) = 1
   \<and> length (split CHR 0x0A
        ''<a href=\"/w\" data-onclick=\"jump_to_time\" data-jump-time=\"5\">0:05</a> Intro'')
       - length [\<lparr>title = ''Intro'', time = Fin 5, timePretty = Some ''0:05''\<rparr>] = 0"
  by code_simp

text \<open>
  C4. \<open>convertToSeconds\<close> splits its argument at the colons and reads each part with
  \<open>parseInt\<close>: three parts give first * 3600 + second * 60 + third, two parts give
  first * 60 + second, one part gives its value, in the arithmetic of Numbers. For parts
  that are decimal digits and a result below \<open>2^53\<close> that is the exact integer. So
  \<open>1:05:30\<close> is 3930, \<open>2:30\<close> is 150 and \<open>45\<close> is 45.
\<close>

theorem convertToSeconds_parts:
  assumes "CHR '':'' \<notin> set a" and "CHR '':'' \<notin> set b" and "CHR '':'' \<notin> set c"
  shows "convertToSeconds (a @ '':'' @ b @ '':'' @ c) =
           add (add (mul (parseInt a) (Fin 3600)) (mul (parseInt b) (Fin 60))) (parseInt c)
       \<and> convertToSeconds (a @ '':'' @ b) = add (mul (parseInt a) (Fin 60)) (parseInt b)
       \<and> convertToSeconds a = parseInt a
       \<and> (a \<noteq> [] \<and> list_all isDigit a \<and> b \<noteq> [] \<and> list_all isDigit b
            \<and> c \<noteq> [] \<and> list_all isDigit c
            \<and> decimal a * 3600 + decimal b * 60 + decimal c < 2 ^ 53 \<longrightarrow>
          convertToSeconds (a @ '':'' @ b @ '':'' @ c) =
            Fin (decimal a * 3600 + decimal b * 60 + decimal c)
          \<and> convertToSeconds (a @ '':'' @ b) = Fin (decimal a * 60 + decimal b)
          \<and> convertToSeconds a = Fin (decimal a))
       \<and> convertToSeconds ''1:05:30'' = Fin 3930
       \<and> convertToSeconds ''2:30'' = Fin 150
       \<and> convertToSeconds ''45'' = Fin 45"
proof -
  note sp = split_colon3 [OF assms]
  have e1: "convertToSeconds (a @ '':'' @ b @ '':'' @ c) =
           add (add (mul (parseInt a) (Fin 3600)) (mul (parseInt b) (Fin 60))) (parseInt c)"
    unfolding convertToSeconds_def sp by (simp add: Let_def)
  have e2: "convertToSeconds (a @ '':'' @ b) = add (mul (parseInt a) (Fin 60)) (parseInt b)"
    unfolding convertToSeconds_def sp by (simp add: Let_def)
  have e3: "convertToSeconds a = parseInt a"
    unfolding convertToSeconds_def sp by (simp add: Let_def)
  have e4: "convertToSeconds (a @ '':'' @ b @ '':'' @ c) =
            Fin (decimal a * 3600 + decimal b * 60 + decimal c)
          \<and> convertToSeconds (a @ '':'' @ b) = Fin (decimal a * 60 + decimal b)
          \<and> convertToSeconds a = Fin (decimal a)"
    if d: "a \<noteq> []" "list_all isDigit a" "b \<noteq> []" "list_all isDigit b"
          "c \<noteq> []" "list_all isDigit c"
       and small: "decimal a * 3600 + decimal b * 60 + decimal c < 2 ^ 53"
  proof -
    have n: "0 \<le> decimal a" "0 \<le> decimal b" "0 \<le> decimal c"
      using d decimal_nonneg by simp_all
    with small have s:
      "\<bar>decimal a\<bar> < 2 ^ 53" "\<bar>decimal b\<bar> < 2 ^ 53" "\<bar>decimal c\<bar> < 2 ^ 53"
      "\<bar>decimal a * 3600\<bar> < 2 ^ 53" "\<bar>decimal b * 60\<bar> < 2 ^ 53"
      "\<bar>decimal a * 60\<bar> < 2 ^ 53"
      "\<bar>decimal a * 3600 + decimal b * 60\<bar> < 2 ^ 53"
      "\<bar>decimal a * 60 + decimal b\<bar> < 2 ^ 53"
      "\<bar>decimal a * 3600 + decimal b * 60 + decimal c\<bar> < 2 ^ 53"
      by simp_all
    have p: "parseInt a = Fin (decimal a)" "parseInt b = Fin (decimal b)"
      "parseInt c = Fin (decimal c)"
      using d s(1-3) by (simp_all add: parseInt_digits toNumber_small)
    show ?thesis
      unfolding e1 e2 e3 p using s by (simp add: toNumber_small)
  qed
  have e5: "convertToSeconds ''1:05:30'' = Fin 3930" by code_simp
  have e6: "convertToSeconds ''2:30'' = Fin 150" by code_simp
  have e7: "convertToSeconds ''45'' = Fin 45" by code_simp
  from e1 e2 e3 e4 e5 e6 e7 show ?thesis by blast
qed

theorem convertToSeconds_parts_witness:
  "CHR '':'' \<notin> set ''1'' \<and> CHR '':'' \<notin> set ''05'' \<and> CHR '':'' \<notin> set ''30''
   \<and> convertToSeconds ''1:05:30'' = Fin (1 * 3600 + 5 * 60 + 30)
   \<and> convertToSeconds ''1:05'' = Fin (1 * 60 + 5)
   \<and> convertToSeconds ''1'' = Fin 1"
proof -
  have h: "CHR '':'' \<notin> set ''1''" "CHR '':'' \<notin> set ''05''" "CHR '':'' \<notin> set ''30''"
    by simp_all
  have d: "''1'' \<noteq> [] \<and> list_all isDigit ''1'' \<and> ''05'' \<noteq> [] \<and> list_all isDigit ''05''
            \<and> ''30'' \<noteq> [] \<and> list_all isDigit ''30''
            \<and> decimal ''1'' * 3600 + decimal ''05'' * 60 + decimal ''30'' < 2 ^ 53"
    by code_simp
  have v: "decimal ''1'' = 1" "decimal ''05'' = 5" "decimal ''30'' = 30" by code_simp+
  from convertToSeconds_parts [OF h] have
    "''1'' \<noteq> [] \<and> list_all isDigit ''1'' \<and> ''05'' \<noteq> [] \<and> list_all isDigit ''05''
            \<and> ''30'' \<noteq> [] \<and> list_all isDigit ''30''
            \<and> decimal ''1'' * 3600 + decimal ''05'' * 60 + decimal ''30'' < 2 ^ 53 \<longrightarrow>
     convertToSeconds (''1'' @ '':'' @ ''05'' @ '':'' @ ''30'') =
            Fin (decimal ''1'' * 3600 + decimal ''05'' * 60 + decimal ''30'')
          \<and> convertToSeconds (''1'' @ '':'' @ ''05'') = Fin (decimal ''1'' * 60 + decimal ''05'')
          \<and> convertToSeconds ''1'' = Fin (decimal ''1'')" by blast
  with d have "convertToSeconds (''1'' @ '':'' @ ''05'' @ '':'' @ ''30'') =
            Fin (decimal ''1'' * 3600 + decimal ''05'' * 60 + decimal ''30'')
          \<and> convertToSeconds (''1'' @ '':'' @ ''05'') = Fin (decimal ''1'' * 60 + decimal ''05'')
          \<and> convertToSeconds ''1'' = Fin (decimal ''1'')" by blast
  with v h show ?thesis by simp
qed

text \<open>
  C10. Every entry that \<open>phaseDescription\<close> produces has a time that is not \<open>NaN\<close>: both
  timestamp patterns capture the time field as a run of digits, and the time is the
  double nearest to the value of that run. It is the value itself when this is below
  \<open>2^53\<close>; it is a finite integer that is not negative when the value is below
  \<open>2^1024 - 2^970\<close>, where the doubles end; from there on it is \<open>+Infinity\<close>.
\<close>

theorem time_of_digits:
  "\<exists>pd. phaseDescription decode content usingYoutubeJs = Inr pd
     \<and> list_all2
          (\<lambda>l e. \<exists>d. timeDigits usingYoutubeJs l = Some d \<and> d \<noteq> [] \<and> list_all isDigit d
              \<and> time e = toNumber (decimal d)
              \<and> (decimal d < 2 ^ 53 \<longrightarrow> time e = Fin (decimal d))
              \<and> (decimal d < 2 ^ 1024 - 2 ^ 970 \<longrightarrow> isFinite (time e) \<and> notNegative (time e))
              \<and> (2 ^ 1024 - 2 ^ 970 \<le> decimal d \<longrightarrow> time e = PosInf))
          (filter (isTimestampLine usingYoutubeJs) (split CHR 0x0A content))
          (timestamps pd)"
proof -
  let ?R = "\<lambda>l e. \<exists>d. timeDigits usingYoutubeJs l = Some d \<and> d \<noteq> [] \<and> list_all isDigit d
              \<and> time e = toNumber (decimal d)
              \<and> (decimal d < 2 ^ 53 \<longrightarrow> time e = Fin (decimal d))
              \<and> (decimal d < 2 ^ 1024 - 2 ^ 970 \<longrightarrow> isFinite (time e) \<and> notNegative (time e))
              \<and> (2 ^ 1024 - 2 ^ 970 \<le> decimal d \<longrightarrow> time e = PosInf)"
  have one: "?R l (the (timestampOf decode usingYoutubeJs l))"
    if "isTimestampLine usingYoutubeJs l" for l
  proof -
    from timestampOf_digits [OF that, of decode] obtain e d where
      e: "timestampOf decode usingYoutubeJs l = Some e"
      and d: "timeDigits usingYoutubeJs l = Some d" "d \<noteq> []" "list_all isDigit d"
      and t: "time e = toNumber (decimal d)" by blast
    from d(3) have n0: "0 \<le> decimal d" by (rule decimal_nonneg)
    have a: "time e = Fin (decimal d)" if "decimal d < 2 ^ 53"
      using that n0 t by (simp add: toNumber_small)
    have b: "isFinite (time e) \<and> notNegative (time e)" if "decimal d < 2 ^ 1024 - 2 ^ 970"
      using toNumber_finite [OF n0 that] t by auto
    have c: "time e = PosInf" if "2 ^ 1024 - 2 ^ 970 \<le> decimal d"
      using toNumber_infinite [OF that] t by simp
    from d t a b c have "?R l e" by blast
    with e show ?thesis by simp
  qed
  have "list_all2 ?R (filter (isTimestampLine usingYoutubeJs) (split CHR 0x0A content))
          (map (\<lambda>l. the (timestampOf decode usingYoutubeJs l))
             (filter (isTimestampLine usingYoutubeJs) (split CHR 0x0A content)))"
    unfolding list.rel_map
    by (rule list.rel_refl_strong) (use one in simp)
  then show ?thesis unfolding phaseDescription_eq by simp
qed

theorem time_of_digits_witness:
  "timeDigits False
      ''<a href=\"/w\" data-onclick=\"jump_to_time\" data-jump-time=\"65\">1:05</a> Intro''
     = Some ''65''
   \<and> decimal ''65'' = 65 \<and> (65::int) < 2 ^ 53
   \<and> (\<exists>pd. phaseDescription id
        ''<a href=\"/w\" data-onclick=\"jump_to_time\" data-jump-time=\"65\">1:05</a> Intro'' False
          = Inr pd
        \<and> map time (timestamps pd) = [Fin 65])"
proof -
  let ?c = "''<a href=\"/w\" data-onclick=\"jump_to_time\" data-jump-time=\"65\">1:05</a> Intro''"
  have s: "filter (isTimestampLine False) (split CHR 0x0A ?c) = [?c]" by code_simp
  have t: "timeDigits False ?c = Some ''65''" by code_simp
  have v: "decimal ''65'' = 65" by code_simp
  from time_of_digits [of id ?c False] obtain pd where
    a: "phaseDescription id ?c False = Inr pd"
    and b: "list_all2
          (\<lambda>l e. \<exists>d. timeDigits False l = Some d \<and> d \<noteq> [] \<and> list_all isDigit d
              \<and> time e = toNumber (decimal d)
              \<and> (decimal d < 2 ^ 53 \<longrightarrow> time e = Fin (decimal d))
              \<and> (decimal d < 2 ^ 1024 - 2 ^ 970 \<longrightarrow> isFinite (time e) \<and> notNegative (time e))
              \<and> (2 ^ 1024 - 2 ^ 970 \<le> decimal d \<longrightarrow> time e = PosInf))
          [?c] (timestamps pd)"
    unfolding s by blast
  from b obtain e where e: "timestamps pd = [e]"
    and "\<exists>d. timeDigits False ?c = Some d
              \<and> (decimal d < 2 ^ 53 \<longrightarrow> time e = Fin (decimal d))"
    by (auto simp: list_all2_Cons1)
  with t v have "time e = Fin 65" by simp
  with e a have "\<exists>pd. phaseDescription id ?c False = Inr pd \<and> map time (timestamps pd) = [Fin 65]"
    by simp
  with t v show ?thesis by simp
qed

theorem time_infinite_counterexample:
  "phaseDescription id
      (''<a href=\"/w\" data-onclick=\"jump_to_time\" data-jump-time=\"'' @
       replicate 309 CHR ''9'' @ ''\">1:05</a> Intro'') False
   = Inr \<lparr>description = [],
          timestamps = [\<lparr>title = ''Intro'', time = PosInf, timePretty = Some ''1:05''\<rparr>]\<rparr>"
proof -
  define d where "d = replicate 309 CHR ''9''"
  define l where
    "l = ''<a href=\"/w\" data-onclick=\"jump_to_time\" data-jump-time=\"'' @ d @ ''\">1:05</a> Intro''"
  have "CHR 0x0A \<notin> set l" by (simp add: l_def d_def)
  then have ls: "split CHR 0x0A l = [l]" by (rule split_no_sep_single)
  have "map_option (\<lambda>tm. (captures tm 2, captures tm 3, captures tm 4))
          (timestampMatch False
             (''<a href=\"/w\" data-onclick=\"jump_to_time\" data-jump-time=\"'' @
              replicate 309 CHR ''9'' @ ''\">1:05</a> Intro''))
        = Some (Some (replicate 309 CHR ''9''), Some ''1:05'', Some ''Intro'')"
    by code_simp
  then have tm: "map_option (\<lambda>tm. (captures tm 2, captures tm 3, captures tm 4))
          (timestampMatch False l) = Some (Some d, Some ''1:05'', Some ''Intro'')"
    by (simp only: l_def d_def)
  have st: "strippedTitle ''Intro'' = ''Intro''" by code_simp
  have dg: "d \<noteq> []" "list_all isDigit d"
    by (simp_all add: d_def isDigit_def list_all_iff)
  have "(2::int) ^ 1024 \<le> 10 ^ 309 - 1" by simp
  then have "2 ^ 1024 \<le> decimal d" by (simp only: d_def decimal_nines)
  then have "toNumber (decimal d) = PosInf" by (rule toNumber_overflow)
  then have ti: "convertToSeconds d = PosInf" using digits_time [OF dg] by simp
  from tm obtain m where m: "timestampMatch False l = Some m" "captures m 2 = Some d"
     "captures m 3 = Some ''1:05''" "captures m 4 = Some ''Intro''"
    by (cases "timestampMatch False l") auto
  with st ti have e: "timestampOf id False l =
      Some \<lparr>title = ''Intro'', time = PosInf, timePretty = Some ''1:05''\<rparr>"
    by (simp add: timestampOf_def timeField_def clockField_def titleField_def)
  from m have "isTimestampLine False l" by (simp add: isTimestampLine_def)
  with e have "phaseDescription id l False = Inr \<lparr>description = [],
          timestamps = [\<lparr>title = ''Intro'', time = PosInf, timePretty = Some ''1:05''\<rparr>]\<rparr>"
    unfolding phaseDescription_eq ls by simp
  then show ?thesis by (simp only: l_def d_def)
qed





text \<open>
  C2. Applying \<open>phaseDescription\<close> to the description of its own result gives that
  description again, with no timestamp, exactly when no line of the input is rewritten,
  that is, when no line of the input is a URL line without being a timestamp line. (A
  rewritten line still holds its anchor, which the second application decorates again.)
\<close>

theorem idempotent_iff:
  "\<exists>pd. phaseDescription decode content usingYoutubeJs = Inr pd
     \<and> ((phaseDescription decode (description pd) usingYoutubeJs =
            Inr \<lparr>description = description pd, timestamps = []\<rparr>)
          = list_all (\<lambda>l. \<not> (isUrlLine l \<and> \<not> isTimestampLine usingYoutubeJs l))
              (split CHR 0x0A content))"
proof -
  let ?yt = usingYoutubeJs
  let ?ls = "split CHR 0x0A content"
  let ?keep = "filter (\<lambda>l. \<not> isTimestampLine ?yt l) ?ls"
  let ?d1 = "join [CHR 0x0A] (map retained ?keep)"
  let ?ok = "list_all (\<lambda>l. \<not> (isUrlLine l \<and> \<not> isTimestampLine ?yt l)) ?ls"
  have nl: "list_all (\<lambda>l. CHR 0x0A \<notin> set l) ?keep"
    by (auto simp: list_all_iff dest: split_no_sep)
  have "(phaseDescription decode ?d1 ?yt = Inr \<lparr>description = ?d1, timestamps = []\<rparr>) = ?ok"
  proof
    assume ok: ?ok
    then have plain: "list_all (\<lambda>l. \<not> isTimestampLine ?yt l \<and> \<not> isUrlLine l) ?keep"
      by (auto simp: list_all_iff)
    then have "list_all (\<lambda>l. retained l = l) ?keep"
      by (simp add: list_all_iff retained_def)
    then have d1: "?d1 = join [CHR 0x0A] ?keep" by (rule join_map_id)
    show "phaseDescription decode ?d1 ?yt = Inr \<lparr>description = ?d1, timestamps = []\<rparr>"
    proof (cases "?keep = []")
      case True
      then have "?d1 = []" by simp
      moreover have "phaseDescription decode [] ?yt = Inr \<lparr>description = [], timestamps = []\<rparr>"
        unfolding phaseDescription_eq by (simp add: empty_line_plain retained_def)
      ultimately show ?thesis by simp
    next
      case False
      from second_pass_same [OF nl False plain] show ?thesis unfolding d1 .
    qed
  next
    assume same: "phaseDescription decode ?d1 ?yt = Inr \<lparr>description = ?d1, timestamps = []\<rparr>"
    show ?ok
    proof (rule ccontr)
      assume "\<not> ?ok"
      then obtain l where l: "l \<in> set ?ls" "isUrlLine l" "\<not> isTimestampLine ?yt l"
        by (auto simp: list_all_iff)
      then have lk: "l \<in> set ?keep" by simp
      then have ne: "?keep \<noteq> []" by (metis empty_iff list.set(1))
      let ?l2 = "map retained ?keep"
      from split_description [OF ne] have sp: "split CHR 0x0A ?d1 = ?l2" .
      from same have ts: "filter (isTimestampLine ?yt) ?l2 = []"
        and ds: "join [CHR 0x0A] (map retained (filter (\<lambda>l. \<not> isTimestampLine ?yt l) ?l2)) = ?d1"
        unfolding phaseDescription_eq sp by simp_all
      from ts have all: "filter (\<lambda>l. \<not> isTimestampLine ?yt l) ?l2 = ?l2"
        by (simp add: filter_empty_conv)
      have keep_nl: "list_all (\<lambda>l. CHR 0x0A \<notin> set l) xs
          \<Longrightarrow> list_all (\<lambda>l. CHR 0x0A \<notin> set l) (map retained xs)" for xs
        by (induction xs) (simp_all add: retained_no_newline)
      from nl have nl2: "list_all (\<lambda>l. CHR 0x0A \<notin> set l) ?l2" by (rule keep_nl)
      then have nl3: "list_all (\<lambda>l. CHR 0x0A \<notin> set l) (map retained ?l2)"
        by (rule keep_nl)
      from ne have ne2: "?l2 \<noteq> []" "map retained ?l2 \<noteq> []" by simp_all
      from ds all have "join [CHR 0x0A] (map retained ?l2) = join [CHR 0x0A] ?l2" by simp
      then have "split CHR 0x0A (join [CHR 0x0A] (map retained ?l2))
          = split CHR 0x0A (join [CHR 0x0A] ?l2)" by simp
      then have "map retained ?l2 = ?l2"
        unfolding split_join [OF ne2(2) nl3] split_join [OF ne2(1) nl2] .
      moreover from lk have "retained l \<in> set ?l2" by simp
      ultimately have fx: "retained (retained l) = retained l" by (rule map_fixed)
      from l(2) have r: "retained l = rewriteAnchor l" by (simp add: retained_def)
      from rewriteAnchor_is_url(1) [OF l(2)] have u: "isUrlLine (rewriteAnchor l)" .
      then have "retained (rewriteAnchor l) = rewriteAnchor (rewriteAnchor l)"
        by (simp add: retained_def)
      with fx r have "rewriteAnchor (rewriteAnchor l) = rewriteAnchor l" by simp
      with rewriteAnchor_is_url(2) [OF u] show False by simp
    qed
  qed
  then show ?thesis unfolding phaseDescription_eq by simp
qed

theorem idempotent_iff_witness:
  "list_all (\<lambda>l. \<not> (isUrlLine l \<and> \<not> isTimestampLine False l))
     (split CHR 0x0A (''hello'' @ [CHR 0x0A] @
        ''<a href=\"/w\" data-onclick=\"jump_to_time\" data-jump-time=\"65\">1:05</a> Intro''))
   \<and> (\<exists>pd. phaseDescription id (''hello'' @ [CHR 0x0A] @
          ''<a href=\"/w\" data-onclick=\"jump_to_time\" data-jump-time=\"65\">1:05</a> Intro'') False
          = Inr pd
        \<and> description pd = ''hello''
        \<and> phaseDescription id (description pd) False =
            Inr \<lparr>description = description pd, timestamps = []\<rparr>)"
proof -
  let ?c = "''hello'' @ [CHR 0x0A] @
        ''<a href=\"/w\" data-onclick=\"jump_to_time\" data-jump-time=\"65\">1:05</a> Intro''"
  have h: "list_all (\<lambda>l. \<not> (isUrlLine l \<and> \<not> isTimestampLine False l)) (split CHR 0x0A ?c)"
    by code_simp
  have d: "map_sum id description (phaseDescription id ?c False) = Inr ''hello''" by code_simp
  from idempotent_iff [of id ?c False] h obtain pd where
    a: "phaseDescription id ?c False = Inr pd"
       "phaseDescription id (description pd) False =
            Inr \<lparr>description = description pd, timestamps = []\<rparr>" by auto
  from a(1) d have "description pd = ''hello''" by simp
  with a h show ?thesis by blast
qed

theorem idempotent_counterexample:
  "phaseDescription id ''<a href=\"http://x/y\">link</a>'' False =
     Inr \<lparr>description =
            ''<a href=\"http://x/y\" target=\"_blank\" rel=\"noopener noreferrer\" class=\"link\">link</a>'',
          timestamps = []\<rparr>
   \<and> phaseDescription id
       ''<a href=\"http://x/y\" target=\"_blank\" rel=\"noopener noreferrer\" class=\"link\">link</a>''
       False =
     Inr \<lparr>description =
            ''<a href=\"http://x/y\" target=\"_blank\" rel=\"noopener noreferrer\" class=\"link\" target=\"_blank\" rel=\"noopener noreferrer\" class=\"link\">link</a>'',
          timestamps = []\<rparr>"
  by code_simp

end
